theory Spec2Isabelle
  imports Main "HOL-Library.Sublist" "HOL-Library.AList"
begin

section \<open>TicketForge: template fields, rendering and the template store\<close>

text \<open>
  A shallow embedding of \<^verbatim>\<open>src/ticketforge.py\<close>. A Python \<^verbatim>\<open>str\<close> is a
  \<^typ>\<open>string\<close>; a Python \<^verbatim>\<open>dict\<close> is an association list in insertion order
  (\<^const>\<open>map_of\<close> looks a key up, \<^const>\<open>AList.update\<close> is \<^verbatim>\<open>d[k] = v\<close>: it
  overwrites in place or appends, \<^const>\<open>AList.delete\<close> is \<^verbatim>\<open>del d[k]\<close>).
  Qt widgets are left out: a dialog is the answer the user gives it, passed as an
  argument, and a message box is part of the outcome.
\<close>

subsection \<open>The string methods the program calls\<close>

text \<open>
  \<^verbatim>\<open>s.find(c, start)\<close> for a one-character \<^verbatim>\<open>c\<close> and \<^verbatim>\<open>start >= 0\<close>: the lowest
  index \<^verbatim>\<open>i >= start\<close> with \<^verbatim>\<open>s[i] == c\<close>. Python's \<^verbatim>\<open>-1\<close> is \<^const>\<open>None\<close>.
\<close>

primrec index_of :: "char \<Rightarrow> string \<Rightarrow> nat option" where
  "index_of c [] = None"
| "index_of c (x # xs) = (if x = c then Some 0 else map_option Suc (index_of c xs))"

definition str_find :: "string \<Rightarrow> char \<Rightarrow> nat \<Rightarrow> nat option" where
  "str_find s c start = map_option (\<lambda>i. start + i) (index_of c (drop start s))"

text \<open>\<^verbatim>\<open>s[i:j]\<close> for \<^verbatim>\<open>0 <= i\<close> and \<^verbatim>\<open>0 <= j\<close>; empty when \<^verbatim>\<open>j <= i\<close>.\<close>

definition slice :: "string \<Rightarrow> nat \<Rightarrow> nat \<Rightarrow> string" where
  "slice s i j = take (j - i) (drop i s)"

text \<open>
  \<^verbatim>\<open>s.replace(old, new)\<close>: every occurrence of \<^verbatim>\<open>old\<close>, found left to right without
  overlap, becomes \<^verbatim>\<open>new\<close>. With an empty \<^verbatim>\<open>old\<close> Python puts \<^verbatim>\<open>new\<close> before every
  character and at the end.
\<close>

function replace_scan :: "string \<Rightarrow> string \<Rightarrow> string \<Rightarrow> string" where
  "replace_scan [] old new = []"
| "replace_scan (c # cs) old new =
     (if old \<noteq> [] \<and> prefix old (c # cs)
      then new @ replace_scan (drop (length old) (c # cs)) old new
      else c # replace_scan cs old new)"
  by pat_completeness auto
termination
  by (relation "measure (\<lambda>(s, old, new). length s)") (auto simp: Suc_le_eq)

definition str_replace :: "string \<Rightarrow> string \<Rightarrow> string \<Rightarrow> string" where
  "str_replace s old new =
     (if old = [] then new @ concat (map (\<lambda>c. c # new) s) else replace_scan s old new)"

subsection \<open>Field extraction: \<^verbatim>\<open>get_template_fields\<close>\<close>

text \<open>
  The \<^verbatim>\<open>while True\<close> loop of \<^verbatim>\<open>get_template_fields\<close>, with its three variables. The
  definition assumes nothing about termination: a scan that never returns is
  \<^const>\<open>None\<close>.
\<close>

partial_function (option) get_template_fields_loop ::
  "string \<Rightarrow> nat \<Rightarrow> string list \<Rightarrow> string list option" where
  "get_template_fields_loop template_text start fields =
     (case str_find template_text CHR ''['' start of
        None \<Rightarrow> Some fields
      | Some opening \<Rightarrow>
          (case str_find template_text CHR '']'' opening of
             None \<Rightarrow> Some fields
           | Some closing \<Rightarrow>
               get_template_fields_loop template_text (closing + 1)
                 (fields @ [slice template_text (opening + 1) closing])))"

declare get_template_fields_loop.simps [code]

text \<open>
  The method is written twice in the source, once in \<^verbatim>\<open>TemplateEditWindow\<close> (the
  one \<^verbatim>\<open>update_preview\<close> and \<^verbatim>\<open>copy_to_clipboard\<close> call) and once in
  \<^verbatim>\<open>TemplateEditor\<close>, with the same body.
\<close>

definition get_template_fields :: "string \<Rightarrow> string list option" where
  "get_template_fields template_text = get_template_fields_loop template_text 0 []"

definition get_template_fields_editor :: "string \<Rightarrow> string list option" where
  "get_template_fields_editor template_text = get_template_fields_loop template_text 0 []"

text \<open>
  The specification's wording of the extractor, on the text itself instead of on
  indices: skip to the first \<^verbatim>\<open>[\<close>; if a \<^verbatim>\<open>]\<close> follows it, the characters up to the
  first one are a field and the scan goes on behind that \<^verbatim>\<open>]\<close>; if none follows, or
  there is no \<^verbatim>\<open>[\<close>, the scan stops.
\<close>

function extractFields_spec :: "string \<Rightarrow> string list" where
  "extractFields_spec s =
     (case dropWhile (\<lambda>c. c \<noteq> CHR ''['') s of
        [] \<Rightarrow> []
      | b # rest \<Rightarrow>
          (if CHR '']'' \<in> set rest
           then takeWhile (\<lambda>c. c \<noteq> CHR '']'') rest
                  # extractFields_spec (tl (dropWhile (\<lambda>c. c \<noteq> CHR '']'') rest))
           else []))"
  by pat_completeness auto
termination
proof (relation "measure length", goal_cases)
  case 1
  show ?case by simp
next
  case (2 s b rest)
  have "length (tl (dropWhile (\<lambda>c. c \<noteq> CHR '']'') rest)) \<le> length rest"
    using length_dropWhile_le [of "\<lambda>c. c \<noteq> CHR '']''" rest] by simp
  moreover have "length (b # rest) \<le> length s"
    using length_dropWhile_le [of "\<lambda>c. c \<noteq> CHR ''[''" s] 2(1) by simp
  ultimately show ?case by simp
qed

declare extractFields_spec.simps [simp del]

subsection \<open>Rendering: \<^verbatim>\<open>update_preview\<close> and \<^verbatim>\<open>copy_to_clipboard\<close>\<close>

definition bracketed :: "string \<Rightarrow> string" where
  "bracketed field = ''['' @ field @ '']''"

definition angled :: "string \<Rightarrow> string" where
  "angled field = ''<'' @ field @ ''>''"

text \<open>The \<^verbatim>\<open>for field in fields\<close> loop of \<^verbatim>\<open>update_preview\<close>.\<close>

fun preview_loop :: "string list \<Rightarrow> string \<Rightarrow> string" where
  "preview_loop [] preview_text = preview_text"
| "preview_loop (field # fields) preview_text =
     preview_loop fields (str_replace preview_text (bracketed field) (angled field))"

text \<open>The result is the text set on the preview pane.\<close>

definition update_preview :: "string \<Rightarrow> string option" where
  "update_preview template_text =
     map_option (\<lambda>fields. preview_loop fields template_text)
       (get_template_fields template_text)"

text \<open>
  Rendering by position, in the specification's words: every bracket pair that the
  extractor's scan finds is replaced by what \<open>sub\<close> gives for the name between the
  brackets, and is left as it is where \<open>sub\<close> gives nothing; all other text stays.
\<close>

function render_by_position :: "(string \<Rightarrow> string option) \<Rightarrow> string \<Rightarrow> string" where
  "render_by_position sub s =
     (case dropWhile (\<lambda>c. c \<noteq> CHR ''['') s of
        [] \<Rightarrow> s
      | b # rest \<Rightarrow>
          (if CHR '']'' \<in> set rest
           then takeWhile (\<lambda>c. c \<noteq> CHR ''['') s
                  @ (case sub (takeWhile (\<lambda>c. c \<noteq> CHR '']'') rest) of
                       Some replacement \<Rightarrow> replacement
                     | None \<Rightarrow> bracketed (takeWhile (\<lambda>c. c \<noteq> CHR '']'') rest))
                  @ render_by_position sub (tl (dropWhile (\<lambda>c. c \<noteq> CHR '']'') rest))
           else s))"
  by pat_completeness auto
termination
proof (relation "measure (\<lambda>(sub, s). length s)", goal_cases)
  case 1
  show ?case by simp
next
  case (2 sub s b rest)
  have "length (tl (dropWhile (\<lambda>c. c \<noteq> CHR '']'') rest)) \<le> length rest"
    using length_dropWhile_le [of "\<lambda>c. c \<noteq> CHR '']''" rest] by simp
  moreover have "length (b # rest) \<le> length s"
    using length_dropWhile_le [of "\<lambda>c. c \<noteq> CHR ''[''" s] 2(1) by simp
  ultimately show ?case by simp
qed

declare render_by_position.simps [simp del]

subsection \<open>Outcomes\<close>

text \<open>
  A method returns, returns after a message box (\<^verbatim>\<open>QMessageBox.information\<close> or
  \<^verbatim>\<open>QMessageBox.warning\<close>, with its text), or lets an exception out. An operation
  yields its outcome together with the state it leaves, so that the state behind a
  raised exception is visible.
\<close>

datatype exn = KeyError string | OSError | JSONDecodeError

datatype outcome = Returned | Informed string | Warned string | Raised exn

text \<open>
  The \<^verbatim>\<open>for field in fields\<close> loop of \<^verbatim>\<open>copy_to_clipboard\<close>. \<^verbatim>\<open>inputs\<close> is the
  dialog's dictionary read through \<^verbatim>\<open>dialog.inputs[field].text()\<close>: the text typed
  for each field name. A name that is not a key raises \<^verbatim>\<open>KeyError\<close>; the dialog of
  the program makes one input for every field it is given, so there every field is a
  key.
\<close>

fun fill_loop :: "(string \<rightharpoonup> string) \<Rightarrow> string list \<Rightarrow> string \<Rightarrow> exn + string" where
  "fill_loop inputs [] filled_text = Inr filled_text"
| "fill_loop inputs (field # fields) filled_text =
     (case inputs field of
        None \<Rightarrow> Inl (KeyError field)
      | Some typed \<Rightarrow> fill_loop inputs fields (str_replace filled_text (bracketed field) typed))"

text \<open>
  \<^verbatim>\<open>copy_to_clipboard\<close>, on the clipboard's text as state. The dialog is \<^const>\<open>None\<close>
  when \<^verbatim>\<open>dialog.exec()\<close> is false and the typed texts otherwise.
\<close>

definition copy_to_clipboard ::
  "string \<Rightarrow> (string \<rightharpoonup> string) option \<Rightarrow> string option \<Rightarrow> (outcome \<times> string option) option" where
  "copy_to_clipboard template_text dialog clipboard =
     (case get_template_fields template_text of
        None \<Rightarrow> None
      | Some fields \<Rightarrow>
          Some (if fields \<noteq> [] then
                  (case dialog of
                     None \<Rightarrow> (Returned, clipboard)
                   | Some inputs \<Rightarrow>
                       (case fill_loop inputs fields template_text of
                          Inl e \<Rightarrow> (Raised e, clipboard)
                        | Inr filled_text \<Rightarrow>
                            (Informed ''Filled template copied to clipboard!'', Some filled_text)))
                else (Informed ''Template copied to clipboard!'', Some template_text)))"

subsection \<open>The template store: \<^verbatim>\<open>TemplateEditor\<close>\<close>

type_synonym category = "(string \<times> string) list"
type_synonym document = "(string \<times> category) list"

text \<open>
  \<^verbatim>\<open>json.dump\<close> and \<^verbatim>\<open>json.load\<close> belong to Python's library, not to this program.
  The operations take them as a parameter, a pair of functions between documents and
  file contents of some type \<open>'f\<close>; \<open>loads\<close> is \<^const>\<open>None\<close> where \<^verbatim>\<open>json.load\<close>
  raises. The codec of the program is modelled further down. A file that holds JSON
  of another shape than a document is outside the model, and so is a failing read of
  a file that exists.
\<close>

record 'f json =
  dumps :: "document \<Rightarrow> 'f"
  loads :: "'f \<Rightarrow> document option"

text \<open>
  The state: \<^verbatim>\<open>self.data\<close>, and the contents of the file \<^verbatim>\<open>data/templates.json\<close>
  (\<^const>\<open>None\<close> when it does not exist). \<^verbatim>\<open>self.current_category\<close> and
  \<^verbatim>\<open>self.current_template\<close> are the selection, set by Qt signal handlers; the
  operations read them, so they are arguments here.
\<close>

record 'f editor =
  data :: document
  templates_file :: "'f option"

text \<open>
  What the file system does with a write: it succeeds, or \<^verbatim>\<open>open\<close> or the write
  raises and the file is left with the given contents.
\<close>

datatype 'f disk = WriteOk | WriteFails "'f option"

text \<open>
  \<^verbatim>\<open>k in d\<close>, and a selection as an \<^verbatim>\<open>if\<close> reads it: \<^verbatim>\<open>None\<close> and the empty
  string are both false.
\<close>

definition has_key :: "('k \<times> 'v) list \<Rightarrow> 'k \<Rightarrow> bool" where
  "has_key d k = (k \<in> set (map fst d))"

fun selected :: "string option \<Rightarrow> string option" where
  "selected None = None"
| "selected (Some c) = (if c = [] then None else Some c)"

definition load_templates :: "'f json \<Rightarrow> 'f editor \<Rightarrow> outcome \<times> 'f editor" where
  "load_templates J s =
     (case templates_file s of
        Some contents \<Rightarrow>
          (case loads J contents of
             Some d \<Rightarrow> (Returned, s\<lparr>data := d\<rparr>)
           | None \<Rightarrow> (Raised JSONDecodeError, s))
      | None \<Rightarrow> (Returned, s\<lparr>data := [(''General'', [])]\<rparr>))"

definition save_templates :: "'f json \<Rightarrow> 'f disk \<Rightarrow> 'f editor \<Rightarrow> outcome \<times> 'f editor" where
  "save_templates J io s =
     (case io of
        WriteOk \<Rightarrow> (Returned, s\<lparr>templates_file := Some (dumps J (data s))\<rparr>)
      | WriteFails left \<Rightarrow> (Raised OSError, s\<lparr>templates_file := left\<rparr>))"

text \<open>
  The operations. Each takes the answer of its dialog: the text and the \<^verbatim>\<open>ok\<close> flag
  of \<^verbatim>\<open>QInputDialog.getText\<close>, or whether the confirmation was answered Yes.
  \<^verbatim>\<open>update_template_list\<close> only rebuilds widgets.
\<close>

definition rename_template ::
  "'f json \<Rightarrow> 'f disk \<Rightarrow> string option \<Rightarrow> string \<Rightarrow> string \<times> bool \<Rightarrow> 'f editor
     \<Rightarrow> outcome \<times> 'f editor" where
  "rename_template J io current_category old_name dialog s =
     (case selected current_category of
        None \<Rightarrow> (Returned, s)
      | Some category \<Rightarrow>
          (case dialog of (new_name, ok) \<Rightarrow>
             if ok \<and> new_name \<noteq> [] \<and> new_name \<noteq> old_name then
               (case map_of (data s) category of
                  None \<Rightarrow> (Raised (KeyError category), s)
                | Some templates \<Rightarrow>
                    (case map_of templates old_name of
                       None \<Rightarrow> (Raised (KeyError old_name), s)
                     | Some template_content \<Rightarrow>
                         save_templates J io
                           (s\<lparr>data := AList.update category
                                (AList.update new_name template_content
                                   (AList.delete old_name templates)) (data s)\<rparr>)))
             else (Returned, s)))"

definition update_template ::
  "'f json \<Rightarrow> 'f disk \<Rightarrow> string \<Rightarrow> string \<Rightarrow> string \<Rightarrow> 'f editor \<Rightarrow> outcome \<times> 'f editor" where
  "update_template J io category template_name new_text s =
     (case map_of (data s) category of
        None \<Rightarrow> (Raised (KeyError category), s)
      | Some templates \<Rightarrow>
          save_templates J io
            (s\<lparr>data := AList.update category
                 (AList.update template_name new_text templates) (data s)\<rparr>))"

definition new_category ::
  "'f json \<Rightarrow> 'f disk \<Rightarrow> string \<times> bool \<Rightarrow> 'f editor \<Rightarrow> outcome \<times> 'f editor" where
  "new_category J io dialog s =
     (case dialog of (name, ok) \<Rightarrow>
        if ok \<and> name \<noteq> [] then
          if has_key (data s) name then (Warned ''Category name already exists!'', s)
          else save_templates J io (s\<lparr>data := AList.update name [] (data s)\<rparr>)
        else (Returned, s))"

definition delete_category ::
  "'f json \<Rightarrow> 'f disk \<Rightarrow> string option \<Rightarrow> bool \<Rightarrow> 'f editor \<Rightarrow> outcome \<times> 'f editor" where
  "delete_category J io current_category yes s =
     (case selected current_category of
        None \<Rightarrow> (Returned, s)
      | Some category \<Rightarrow>
          if yes then
            if has_key (data s) category
            then save_templates J io (s\<lparr>data := AList.delete category (data s)\<rparr>)
            else (Raised (KeyError category), s)
          else (Returned, s))"

definition default_template_text :: string where
  "default_template_text =
     ''Enter your template here.'' @ [CHR 0x0A] @ ''Use [field_name] for input fields.''"

definition new_template ::
  "'f json \<Rightarrow> 'f disk \<Rightarrow> string option \<Rightarrow> string \<times> bool \<Rightarrow> 'f editor \<Rightarrow> outcome \<times> 'f editor" where
  "new_template J io current_category dialog s =
     (case selected current_category of
        None \<Rightarrow> (Warned ''Please select a category first!'', s)
      | Some category \<Rightarrow>
          (case dialog of (name, ok) \<Rightarrow>
             if ok \<and> name \<noteq> [] then
               (case map_of (data s) category of
                  None \<Rightarrow> (Raised (KeyError category), s)
                | Some templates \<Rightarrow>
                    if has_key templates name then (Warned ''Template name already exists!'', s)
                    else save_templates J io
                           (s\<lparr>data := AList.update category
                                (AList.update name default_template_text templates) (data s)\<rparr>))
             else (Returned, s)))"

definition delete_template ::
  "'f json \<Rightarrow> 'f disk \<Rightarrow> string option \<Rightarrow> string option \<Rightarrow> bool \<Rightarrow> 'f editor
     \<Rightarrow> outcome \<times> 'f editor" where
  "delete_template J io current_template current_category yes s =
     (case (selected current_template, selected current_category) of
        (Some template, Some category) \<Rightarrow>
          if yes then
            (case map_of (data s) category of
               None \<Rightarrow> (Raised (KeyError category), s)
             | Some templates \<Rightarrow>
                 if has_key templates template
                 then save_templates J io
                        (s\<lparr>data := AList.update category
                             (AList.delete template templates) (data s)\<rparr>)
                 else (Raised (KeyError template), s))
          else (Returned, s)
      | _ \<Rightarrow> (Returned, s))"

text \<open>
  The mutations of the store as requests, one per operation, with the selection and
  the dialog answers they run on.
\<close>

datatype mutation =
    NewCategory "string \<times> bool"
  | DeleteCategory "string option" bool
  | NewTemplate "string option" "string \<times> bool"
  | RenameTemplate "string option" string "string \<times> bool"
  | UpdateTemplate string string string
  | DeleteTemplate "string option" "string option" bool

fun mutate :: "'f json \<Rightarrow> 'f disk \<Rightarrow> mutation \<Rightarrow> 'f editor \<Rightarrow> outcome \<times> 'f editor" where
  "mutate J io (NewCategory dialog) s = new_category J io dialog s"
| "mutate J io (DeleteCategory cat yes) s = delete_category J io cat yes s"
| "mutate J io (NewTemplate cat dialog) s = new_template J io cat dialog s"
| "mutate J io (RenameTemplate cat old_name dialog) s = rename_template J io cat old_name dialog s"
| "mutate J io (UpdateTemplate category template_name new_text) s =
     update_template J io category template_name new_text s"
| "mutate J io (DeleteTemplate tmpl cat yes) s = delete_template J io tmpl cat yes s"

subsection \<open>The storage format: JSON\<close>

text \<open>
  Modelled from the spec: the persisted storage format, a JSON object of category
  names, each with an object of template names and body strings. The program writes
  it with \<^verbatim>\<open>json.dump(self.data, f, indent=4)\<close> and reads it with \<^verbatim>\<open>json.load(f)\<close>.
  Python's \<^verbatim>\<open>json\<close> library is not among the repository's sources, so the text it
  writes and its parser, for JSON of the document's shape, are modelled here on the
  8-bit characters of \<^typ>\<open>string\<close>.
\<close>

text \<open>
  Modelled from the spec: the escape \<^verbatim>\<open>\u00XX\<close> that \<^verbatim>\<open>json.dump\<close> writes, with
  \<^verbatim>\<open>ensure_ascii\<close> left at its default, for a character outside the printable ASCII
  range; the digits are lower case. The parser accepts both cases.
\<close>

definition hex_digit :: "nat \<Rightarrow> char" where
  "hex_digit n = (if n < 10 then char_of (48 + n) else char_of (87 + n))"

definition hex_value :: "char \<Rightarrow> nat option" where
  "hex_value c =
     (let n = of_char c :: nat in
      if 48 \<le> n \<and> n \<le> 57 then Some (n - 48)
      else if 97 \<le> n \<and> n \<le> 102 then Some (n - 87)
      else if 65 \<le> n \<and> n \<le> 70 then Some (n - 55)
      else None)"

definition hex4 :: "string \<Rightarrow> nat option" where
  "hex4 ds =
     (case map hex_value ds of
        [Some a, Some b, Some c, Some d] \<Rightarrow> Some (((a * 16 + b) * 16 + c) * 16 + d)
      | _ \<Rightarrow> None)"

text \<open>
  Modelled from the spec: a character inside a JSON string as \<^verbatim>\<open>json.dump\<close> writes
  it. Quote, backslash and five control characters have short escapes, printable
  ASCII is written as it is, everything else is a \<^verbatim>\<open>\u\<close> escape.
\<close>

definition escape_char :: "char \<Rightarrow> string" where
  "escape_char c =
     (if c = CHR 0x22 then [CHR 0x5C, CHR 0x22]
      else if c = CHR 0x5C then [CHR 0x5C, CHR 0x5C]
      else if c = CHR 0x0A then [CHR 0x5C, CHR ''n'']
      else if c = CHR 0x0D then [CHR 0x5C, CHR ''r'']
      else if c = CHR 0x09 then [CHR 0x5C, CHR ''t'']
      else if c = CHR 0x08 then [CHR 0x5C, CHR ''b'']
      else if c = CHR 0x0C then [CHR 0x5C, CHR ''f'']
      else if 0x20 \<le> (of_char c :: nat) \<and> (of_char c :: nat) \<le> 0x7E then [c]
      else [CHR 0x5C, CHR ''u'', CHR ''0'', CHR ''0'',
            hex_digit (of_char c div 16), hex_digit (of_char c mod 16)])"

definition encode_string :: "string \<Rightarrow> string" where
  "encode_string s = CHR 0x22 # concat (map escape_char s) @ [CHR 0x22]"

text \<open>
  Modelled from the spec: the string scanner of \<^verbatim>\<open>json.load\<close>, behind the opening
  quote. It stops at the closing quote and yields the string and the text behind
  it; an unknown escape, a \<^verbatim>\<open>\u\<close> without four hexadecimal digits and an unescaped
  control character are errors. A \<^verbatim>\<open>\u\<close> escape above \<^verbatim>\<open>00ff\<close> names a character
  that the 8-bit characters of this model do not have, and is refused.
\<close>

definition unescape :: "char \<Rightarrow> char option" where
  "unescape e =
     (if e = CHR 0x22 then Some (CHR 0x22)
      else if e = CHR 0x5C then Some (CHR 0x5C)
      else if e = CHR ''/'' then Some (CHR ''/'')
      else if e = CHR ''b'' then Some (CHR 0x08)
      else if e = CHR ''f'' then Some (CHR 0x0C)
      else if e = CHR ''n'' then Some (CHR 0x0A)
      else if e = CHR ''r'' then Some (CHR 0x0D)
      else if e = CHR ''t'' then Some (CHR 0x09)
      else None)"

function scan_string :: "string \<Rightarrow> (string \<times> string) option" where
  "scan_string [] = None"
| "scan_string (c # cs) =
     (if c = CHR 0x22 then Some ([], cs)
      else if c = CHR 0x5C then
        (case cs of
           [] \<Rightarrow> None
         | e # cs' \<Rightarrow>
             if e = CHR ''u'' then
               (case hex4 (take 4 cs') of
                  None \<Rightarrow> None
                | Some n \<Rightarrow>
                    if n < 256
                    then map_option (\<lambda>(s, rest). (char_of n # s, rest)) (scan_string (drop 4 cs'))
                    else None)
             else
               (case unescape e of
                  None \<Rightarrow> None
                | Some x \<Rightarrow> map_option (\<lambda>(s, rest). (x # s, rest)) (scan_string cs')))
      else if (of_char c :: nat) < 0x20 then None
      else map_option (\<lambda>(s, rest). (c # s, rest)) (scan_string cs))"
  by pat_completeness auto
termination
  by (relation "measure length") auto

definition parse_string :: "string \<Rightarrow> (string \<times> string) option" where
  "parse_string cs =
     (case cs of
        [] \<Rightarrow> None
      | c # rest \<Rightarrow> if c = CHR 0x22 then scan_string rest else None)"

text \<open>
  Modelled from the spec: JSON white space, and a dictionary built from the members
  of an object in their order, a later member with the same name overwriting the
  earlier one's value.
\<close>

definition skip_ws :: "string \<Rightarrow> string" where
  "skip_ws = dropWhile (\<lambda>c. c = CHR '' '' \<or> c = CHR 0x09 \<or> c = CHR 0x0A \<or> c = CHR 0x0D)"

definition dict_of_pairs :: "('k \<times> 'v) list \<Rightarrow> ('k \<times> 'v) list" where
  "dict_of_pairs pairs = fold (\<lambda>(k, v) d. AList.update k v d) pairs []"

text \<open>
  Modelled from the spec: the members of a JSON object, from the first name to the
  closing brace, with the values read by \<open>parse_value\<close>; then the object itself.
  A comma must be followed by another member.
\<close>

partial_function (option) parse_members ::
  "(string \<Rightarrow> ('v \<times> string) option) \<Rightarrow> string \<Rightarrow> ((string \<times> 'v) list \<times> string) option" where
  "parse_members parse_value cs =
     (case parse_string cs of
        None \<Rightarrow> None
      | Some (k, r1) \<Rightarrow>
          (case skip_ws r1 of
             [] \<Rightarrow> None
           | c1 # r2 \<Rightarrow>
               if c1 \<noteq> CHR '':'' then None
               else
                 (case parse_value (skip_ws r2) of
                    None \<Rightarrow> None
                  | Some (v, r3) \<Rightarrow>
                      (case skip_ws r3 of
                         [] \<Rightarrow> None
                       | c2 # r4 \<Rightarrow>
                           if c2 = CHR ''}'' then Some ([(k, v)], r4)
                           else if c2 = CHR '','' then
                             Option.bind (parse_members parse_value (skip_ws r4))
                               (\<lambda>(members, r5). Some ((k, v) # members, r5))
                           else None))))"

declare parse_members.simps [code]

definition parse_object ::
  "(string \<Rightarrow> ('v \<times> string) option) \<Rightarrow> string \<Rightarrow> ((string \<times> 'v) list \<times> string) option" where
  "parse_object parse_value cs =
     (case cs of
        [] \<Rightarrow> None
      | c # r \<Rightarrow>
          if c \<noteq> CHR ''{'' then None
          else
            (case skip_ws r of
               [] \<Rightarrow> None
             | c' # r' \<Rightarrow>
                 if c' = CHR ''}'' then Some ([], r')
                 else map_option (\<lambda>(members, rest). (dict_of_pairs members, rest))
                        (parse_members parse_value (skip_ws r))))"

text \<open>
  Modelled from the spec: \<^verbatim>\<open>json.load\<close> on the text of the file. \<^const>\<open>None\<close> is a
  \<^verbatim>\<open>JSONDecodeError\<close>, or a value that is not a document (an object of objects of
  strings); text behind the value other than white space is an error.
\<close>

definition json_load :: "string \<Rightarrow> document option" where
  "json_load s =
     (case parse_object (parse_object parse_string) (skip_ws s) of
        None \<Rightarrow> None
      | Some (d, rest) \<Rightarrow> if skip_ws rest = [] then Some d else None)"

text \<open>
  Modelled from the spec: the text \<^verbatim>\<open>json.dump(d, f, indent=4)\<close> writes. An empty
  object is \<^verbatim>\<open>{}\<close>; the members of any other start on a line of their own, four
  spaces deeper than the object, separated by a comma at the end of the line, name
  and value separated by a colon and a space; the closing brace is on a line of its
  own at the object's depth.
\<close>

definition indent_to :: "nat \<Rightarrow> string" where
  "indent_to level = CHR 0x0A # replicate (4 * level) CHR '' ''"

fun dump_members :: "nat \<Rightarrow> (string \<times> string) list \<Rightarrow> string" where
  "dump_members level [] = []"
| "dump_members level [(k, v)] = encode_string k @ '': '' @ v"
| "dump_members level ((k, v) # m # ms) =
     encode_string k @ '': '' @ v @ '','' @ indent_to level @ dump_members level (m # ms)"

definition dump_object :: "nat \<Rightarrow> (string \<times> string) list \<Rightarrow> string" where
  "dump_object level members =
     (if members = [] then ''{}''
      else ''{'' @ indent_to (level + 1) @ dump_members (level + 1) members
             @ indent_to level @ ''}'')"

definition dump_category :: "category \<Rightarrow> string" where
  "dump_category templates =
     dump_object 1 (map (\<lambda>(name, body). (name, encode_string body)) templates)"

definition json_dump :: "document \<Rightarrow> string" where
  "json_dump d =
     dump_object 0 (map (\<lambda>(category, templates). (category, dump_category templates)) d)"

text \<open>
  The codec of the program.
\<close>

definition python_json :: "string json" where
  "python_json = \<lparr>dumps = json_dump, loads = json_load\<rparr>"

text \<open>
  An association list stands for a dictionary when no key occurs twice: the
  document's category names and, within each category, its template names.
\<close>

definition unique_names :: "document \<Rightarrow> bool" where
  "unique_names d =
     (distinct (map fst d) \<and> list_all (\<lambda>entry. distinct (map fst (snd entry))) d)"

text \<open>
  A codec for closed examples: the file's contents are the document itself.
\<close>

definition plain_json :: "document json" where
  "plain_json = \<lparr>dumps = (\<lambda>d. d), loads = Some\<rparr>"

section \<open>Properties\<close>

subsection \<open>The field extractor\<close>


lemma index_of_eq:
  "index_of c xs =
     (if c \<in> set xs then Some (length (takeWhile (\<lambda>x. x \<noteq> c) xs)) else None)"
  by (induction xs) auto

lemma takeWhile_neq_less:
  "c \<in> set xs \<Longrightarrow> length (takeWhile (\<lambda>x. x \<noteq> c) xs) < length xs"
  by (induction xs) auto

lemma str_find_None: "str_find s c start = None \<longleftrightarrow> c \<notin> set (drop start s)"
  by (simp add: str_find_def index_of_eq)

lemma str_find_Some:
  "str_find s c start = Some i \<longleftrightarrow>
     c \<in> set (drop start s) \<and> i = start + length (takeWhile (\<lambda>x. x \<noteq> c) (drop start s))"
  by (auto simp: str_find_def index_of_eq)

lemma str_find_bounds:
  assumes "str_find s c start = Some i"
  shows "start \<le> i" and "i < length s" and "s ! i = c"
proof -
  let ?t = "drop start s"
  let ?n = "length (takeWhile (\<lambda>x. x \<noteq> c) ?t)"
  from assms have mem: "c \<in> set ?t" and i: "i = start + ?n"
    by (simp_all add: str_find_Some)
  show "start \<le> i" using i by simp
  from mem have n: "?n < length ?t"
    by (rule takeWhile_neq_less)
  then show "i < length s" using i by simp
  have "?t ! ?n = c"
    using nth_length_takeWhile [OF n] by simp
  then show "s ! i = c" using i n by (simp add: add.commute)
qed

lemma str_find_least:
  assumes "str_find s c start = Some i" "start \<le> j" "j < i"
  shows "s ! j \<noteq> c"
proof -
  let ?t = "drop start s"
  from assms(1) have i: "i = start + length (takeWhile (\<lambda>x. x \<noteq> c) ?t)"
    by (simp add: str_find_Some)
  have "j - start < length (takeWhile (\<lambda>x. x \<noteq> c) ?t)" using i assms by simp
  then have "?t ! (j - start) \<noteq> c"
    by (metis (mono_tags, lifting) nth_mem set_takeWhileD takeWhile_nth)
  moreover have "j < length s" using assms str_find_bounds(2)[OF assms(1)] by simp
  ultimately show ?thesis using assms(2) by simp
qed

lemma loop_progress:
  assumes "str_find s CHR ''['' start = Some i" "str_find s CHR '']'' i = Some e"
  shows "start < e + 1" and "e + 1 \<le> length s" and "i < e"
proof -
  have "start \<le> i" "s ! i = CHR ''[''" using str_find_bounds[OF assms(1)] by simp_all
  moreover have "i \<le> e" "e < length s" "s ! e = CHR '']''" using str_find_bounds[OF assms(2)] by simp_all
  ultimately show "start < e + 1" and "e + 1 \<le> length s" and "i < e"
    by (auto simp: le_less)
qed

lemma loop_returns: "\<exists>fs. get_template_fields_loop s start acc = Some fs"
proof (induction "length s - start" arbitrary: start acc rule: less_induct)
  case less
  show ?case
  proof (cases "str_find s CHR ''['' start")
    case None
    then show ?thesis by (subst get_template_fields_loop.simps) simp
  next
    case (Some i)
    show ?thesis
    proof (cases "str_find s CHR '']'' i")
      case None
      with Some show ?thesis by (subst get_template_fields_loop.simps) simp
    next
      case (Some e)
      have "length s - (e + 1) < length s - start"
        using loop_progress[OF \<open>str_find s CHR ''['' start = Some i\<close> Some] by simp
      from less[OF this] obtain fs where
        "get_template_fields_loop s (e + 1) (acc @ [slice s (i + 1) e]) = Some fs" by blast
      with Some \<open>str_find s CHR ''['' start = Some i\<close> show ?thesis
        by (subst get_template_fields_loop.simps) simp
    qed
  qed
qed

lemma extractFields_spec_no_open:
  assumes "CHR ''['' \<notin> set s"
  shows "extractFields_spec s = []"
proof -
  from assms have "dropWhile (\<lambda>c. c \<noteq> CHR ''['') s = []" by auto
  then show ?thesis
    by (subst extractFields_spec.simps) (simp only: list.case)
qed

lemma extractFields_spec_open:
  assumes "dropWhile (\<lambda>c. c \<noteq> CHR ''['') s = b # rest"
  shows "extractFields_spec s =
     (if CHR '']'' \<in> set rest
      then takeWhile (\<lambda>c. c \<noteq> CHR '']'') rest
             # extractFields_spec (tl (dropWhile (\<lambda>c. c \<noteq> CHR '']'') rest))
      else [])"
  by (subst extractFields_spec.simps) (simp only: assms list.case)

lemma dropWhile_neq_Cons:
  "c \<in> set xs \<Longrightarrow> \<exists>rest. dropWhile (\<lambda>x. x \<noteq> c) xs = c # rest"
  by (induction xs) auto

lemma drop_Suc_tl: "drop (Suc n) xs = tl (drop n xs)"
  by (simp add: drop_Suc tl_drop)

lemma loop_eq_spec:
  "get_template_fields_loop s start acc = Some (acc @ extractFields_spec (drop start s))"
proof (induction "length s - start" arbitrary: start acc rule: less_induct)
  case less
  let ?t = "drop start s"
  show ?case
  proof (cases "str_find s CHR ''['' start")
    case None
    then have "CHR ''['' \<notin> set ?t" by (simp add: str_find_None)
    then have "extractFields_spec ?t = []" by (rule extractFields_spec_no_open)
    with None show ?thesis by (subst get_template_fields_loop.simps) simp
  next
    case (Some i)
    then have mem: "CHR ''['' \<in> set ?t"
      and i: "i = start + length (takeWhile (\<lambda>x. x \<noteq> CHR ''['') ?t)"
      by (simp_all add: str_find_Some)
    have di: "drop i s = dropWhile (\<lambda>x. x \<noteq> CHR ''['') ?t"
      using i by (simp add: dropWhile_eq_drop add.commute)
    from dropWhile_neq_Cons [OF mem]
    obtain rest where rest: "dropWhile (\<lambda>x. x \<noteq> CHR ''['') ?t = CHR ''['' # rest" ..
    have drest: "drop (i + 1) s = rest"
      using di rest by (simp add: drop_Suc_tl)
    show ?thesis
    proof (cases "str_find s CHR '']'' i")
      case None
      then have "CHR '']'' \<notin> set rest" using di rest by (simp add: str_find_None)
      then have "extractFields_spec ?t = []"
        using extractFields_spec_open [OF rest] by simp
      with None Some show ?thesis by (subst get_template_fields_loop.simps) simp
    next
      case (Some e)
      let ?n = "length (takeWhile (\<lambda>x. x \<noteq> CHR '']'') rest)"
      from Some have memr: "CHR '']'' \<in> set rest" and e: "e = i + 1 + ?n"
        using di rest by (simp_all add: str_find_Some)
      have sl: "slice s (i + 1) e = takeWhile (\<lambda>x. x \<noteq> CHR '']'') rest"
        using e drest by (simp add: slice_def takeWhile_eq_take[symmetric])
      have "drop (e + 1) s = drop (?n + 1) (drop (i + 1) s)"
        using e by (simp add: add.commute add.left_commute)
      also have "\<dots> = tl (dropWhile (\<lambda>x. x \<noteq> CHR '']'') rest)"
        using drest by (simp add: dropWhile_eq_drop drop_Suc_tl)
      finally have dr: "drop (e + 1) s = tl (dropWhile (\<lambda>x. x \<noteq> CHR '']'') rest)" .
      have spec: "extractFields_spec ?t =
          takeWhile (\<lambda>x. x \<noteq> CHR '']'') rest
            # extractFields_spec (tl (dropWhile (\<lambda>x. x \<noteq> CHR '']'') rest))"
        using extractFields_spec_open [OF rest] memr by simp
      have "length s - (e + 1) < length s - start"
        using loop_progress[OF \<open>str_find s CHR ''['' start = Some i\<close> Some] by simp
      from less[OF this]
      have "get_template_fields_loop s (e + 1) (acc @ [slice s (i + 1) e])
              = Some ((acc @ [slice s (i + 1) e]) @ extractFields_spec (drop (e + 1) s))" .
      with Some \<open>str_find s CHR ''['' start = Some i\<close> spec sl dr show ?thesis
        by (subst get_template_fields_loop.simps) simp
    qed
  qed
qed

lemma dropWhile_neq_append:
  "c \<notin> set xs \<Longrightarrow> dropWhile (\<lambda>x. x \<noteq> c) (xs @ ys) = dropWhile (\<lambda>x. x \<noteq> c) ys"
  by (induction xs) auto

lemma takeWhile_neq_append:
  "c \<notin> set xs \<Longrightarrow> takeWhile (\<lambda>x. x \<noteq> c) (xs @ c # ys) = xs"
  by (induction xs) auto

lemma extractFields_spec_field:
  assumes "CHR ''['' \<notin> set before" and "CHR '']'' \<notin> set field"
  shows "extractFields_spec (before @ ''['' @ field @ '']'' @ after) = field # extractFields_spec after"
proof -
  have "dropWhile (\<lambda>c. c \<noteq> CHR ''['') (before @ ''['' @ field @ '']'' @ after)
          = CHR ''['' # (field @ '']'' @ after)"
    using assms(1) by (simp add: dropWhile_neq_append)
  from extractFields_spec_open [OF this] assms(2) show ?thesis
    by (simp add: takeWhile_neq_append dropWhile_neq_append)
qed

lemma extractFields_spec_unterminated:
  assumes "CHR ''['' \<notin> set before" and "CHR '']'' \<notin> set rest"
  shows "extractFields_spec (before @ ''['' @ rest) = []"
proof -
  have "dropWhile (\<lambda>c. c \<noteq> CHR ''['') (before @ ''['' @ rest) = CHR ''['' # rest"
    using assms(1) by (simp add: dropWhile_neq_append)
  from extractFields_spec_open [OF this] assms(2) show ?thesis by simp
qed

lemma get_template_fields_eq_spec: "get_template_fields s = Some (extractFields_spec s)"
  using loop_eq_spec [of s 0 "[]"] by (simp add: get_template_fields_def)

text \<open>
  Claim C1. For every input string the extractor returns, in order and with
  duplicates, the texts between each \<^verbatim>\<open>[\<close> and the first \<^verbatim>\<open>]\<close> after it: the result is
  the specification's scan \<^const>\<open>extractFields_spec\<close>. Spelled out on the text: with
  no \<^verbatim>\<open>[\<close> there is no field; a text whose first \<^verbatim>\<open>[\<close> is followed by a field without
  \<^verbatim>\<open>]\<close> and then a \<^verbatim>\<open>]\<close> yields that field and then the fields of what follows the
  \<^verbatim>\<open>]\<close>; a \<^verbatim>\<open>[\<close> with no \<^verbatim>\<open>]\<close> behind it ends the scan with no partial field. So
  \<^verbatim>\<open>[a[b]c]\<close> gives the one field \<^verbatim>\<open>a[b\<close>, and \<^verbatim>\<open>unterminated [field\<close> gives none.
\<close>

theorem get_template_fields_extracts:
  "get_template_fields s = Some (extractFields_spec s)
   \<and> (CHR ''['' \<notin> set s \<longrightarrow> get_template_fields s = Some [])
   \<and> (CHR ''['' \<notin> set before \<and> CHR '']'' \<notin> set field \<longrightarrow>
        get_template_fields (before @ ''['' @ field @ '']'' @ after)
          = Some (field # extractFields_spec after))
   \<and> (CHR ''['' \<notin> set before \<and> CHR '']'' \<notin> set rest \<longrightarrow>
        get_template_fields (before @ ''['' @ rest) = Some [])
   \<and> get_template_fields ''[a[b]c]'' = Some [''a[b'']
   \<and> get_template_fields ''unterminated [field'' = Some []"
proof -
  have "get_template_fields ''[a[b]c]'' = Some [''a[b'']" by code_simp
  moreover have "get_template_fields ''unterminated [field'' = Some []" by code_simp
  ultimately show ?thesis
    by (simp add: get_template_fields_eq_spec extractFields_spec_no_open
        extractFields_spec_field extractFields_spec_unterminated del: append.simps)
qed

theorem get_template_fields_extracts_witness:
  "CHR ''['' \<notin> set ''Hello '' \<and> CHR '']'' \<notin> set ''name''
   \<and> get_template_fields (''Hello '' @ ''['' @ ''name'' @ '']'' @ ''!'')
        = Some (''name'' # extractFields_spec ''!'')
   \<and> CHR ''['' \<notin> set ''no brackets here''
   \<and> get_template_fields ''no brackets here'' = Some []
   \<and> CHR ''['' \<notin> set ''unterminated '' \<and> CHR '']'' \<notin> set ''field''
   \<and> get_template_fields (''unterminated '' @ ''['' @ ''field'') = Some []"
proof -
  have a: "CHR ''['' \<notin> set ''Hello ''" "CHR '']'' \<notin> set ''name''"
    "CHR ''['' \<notin> set ''no brackets here''" "CHR '']'' \<notin> set ''field''"
    "CHR ''['' \<notin> set ''unterminated ''"
    by simp_all
  note t1 = get_template_fields_extracts
      [of "''no brackets here''" "''Hello ''" "''name''" "''!''" "''field''"]
  note t2 = get_template_fields_extracts
      [of "''no brackets here''" "''unterminated ''" "''name''" "''!''" "''field''"]
  from a t1 t2 show ?thesis by blast
qed

text \<open>
  Claim C10. The scan returns on every input, from every cursor and with every list
  collected so far, in both copies of the method: an iteration that finds a \<^verbatim>\<open>[\<close> and
  a \<^verbatim>\<open>]\<close> behind it moves the cursor to one past that \<^verbatim>\<open>]\<close>, a strictly larger
  position within the text, and an iteration that misses either one returns.
\<close>

theorem get_template_fields_terminates:
  "(\<exists>found. get_template_fields_loop s start acc = Some found)
   \<and> (\<exists>found. get_template_fields s = Some found)
   \<and> (\<exists>found. get_template_fields_editor s = Some found)
   \<and> (\<forall>opening closing.
         str_find s CHR ''['' start = Some opening \<and> str_find s CHR '']'' opening = Some closing
         \<longrightarrow> start < closing + 1 \<and> closing + 1 \<le> length s
             \<and> get_template_fields_loop s start acc
                 = get_template_fields_loop s (closing + 1)
                     (acc @ [slice s (opening + 1) closing]))
   \<and> (str_find s CHR ''['' start = None \<longrightarrow> get_template_fields_loop s start acc = Some acc)
   \<and> (\<forall>opening. str_find s CHR ''['' start = Some opening \<and> str_find s CHR '']'' opening = None
         \<longrightarrow> get_template_fields_loop s start acc = Some acc)"
proof -
  have step: "start < j + 1 \<and> j + 1 \<le> length s
      \<and> get_template_fields_loop s start acc
          = get_template_fields_loop s (j + 1) (acc @ [slice s (i + 1) j])"
    if "str_find s CHR ''['' start = Some i" "str_find s CHR '']'' i = Some j"
    for i j
    using loop_progress [OF that] that
    by (subst get_template_fields_loop.simps) simp
  have stop1: "get_template_fields_loop s start acc = Some acc"
    if "str_find s CHR ''['' start = None"
    using that by (subst get_template_fields_loop.simps) simp
  have stop2: "get_template_fields_loop s start acc = Some acc"
    if "str_find s CHR ''['' start = Some i" "str_find s CHR '']'' i = None"
    for i
    using that by (subst get_template_fields_loop.simps) simp
  show ?thesis
    using loop_returns [of s start acc] loop_returns [of s 0 "[]"] step stop1 stop2
    unfolding get_template_fields_def get_template_fields_editor_def
    by blast
qed

theorem get_template_fields_terminates_witness:
  "(\<exists>found. get_template_fields_loop ''a[b]c[d'' 0 [] = Some found)
   \<and> str_find ''a[b]c[d'' CHR ''['' 0 = Some 1 \<and> str_find ''a[b]c[d'' CHR '']'' 1 = Some 3
   \<and> (0::nat) < 3 + 1 \<and> 3 + 1 \<le> length ''a[b]c[d''
   \<and> get_template_fields_loop ''a[b]c[d'' 0 []
       = get_template_fields_loop ''a[b]c[d'' (3 + 1) ([] @ [slice ''a[b]c[d'' (1 + 1) 3])
   \<and> str_find ''a[b]c[d'' CHR ''['' 4 = Some 5 \<and> str_find ''a[b]c[d'' CHR '']'' 5 = None
   \<and> get_template_fields_loop ''a[b]c[d'' 4 [''b''] = Some [''b'']
   \<and> str_find ''abc'' CHR ''['' 0 = None
   \<and> get_template_fields_loop ''abc'' 0 [] = Some []"
proof -
  have a: "str_find ''a[b]c[d'' CHR ''['' 0 = Some 1" "str_find ''a[b]c[d'' CHR '']'' 1 = Some 3"
    "str_find ''a[b]c[d'' CHR ''['' 4 = Some 5" "str_find ''a[b]c[d'' CHR '']'' 5 = None"
    "str_find ''abc'' CHR ''['' 0 = None"
    by code_simp+
  note t1 = get_template_fields_terminates [of "''a[b]c[d''" 0 "[]"]
  note t2 = get_template_fields_terminates [of "''a[b]c[d''" 4 "[''b'']"]
  note t3 = get_template_fields_terminates [of "''abc''" 0 "[]"]
  note ex = t1 [THEN conjunct1]
  note step = t1 [THEN conjunct2, THEN conjunct2, THEN conjunct2, THEN conjunct1,
      rule_format, OF conjI [OF a(1) a(2)]]
  note stop2 = t2 [THEN conjunct2, THEN conjunct2, THEN conjunct2, THEN conjunct2,
      THEN conjunct2, rule_format, OF conjI [OF a(3) a(4)]]
  note stop1 = t3 [THEN conjunct2, THEN conjunct2, THEN conjunct2, THEN conjunct2,
      THEN conjunct1, rule_format, OF a(5)]
  show ?thesis
    by (intro conjI ex a stop1 stop2 step [THEN conjunct1]
        step [THEN conjunct2, THEN conjunct1] step [THEN conjunct2, THEN conjunct2])
qed

subsection \<open>The template store\<close>


lemma update_fresh: "\<not> has_key al k \<Longrightarrow> AList.update k v al = al @ [(k, v)]"
  by (induction al) (auto simp: has_key_def)

lemma has_key_map_of: "has_key al k \<longleftrightarrow> map_of al k \<noteq> None"
  by (simp add: has_key_def map_of_eq_None_iff image_iff)

lemma save_templates_ok:
  "save_templates J WriteOk s = (Returned, s\<lparr>templates_file := Some (dumps J (data s))\<rparr>)"
  by (simp add: save_templates_def)

text \<open>
  Claim C3, at the input where the code leaves it. The category \<^verbatim>\<open>General\<close> holds
  the templates \<^verbatim>\<open>a\<close> and \<^verbatim>\<open>b\<close>, and \<^verbatim>\<open>a\<close> is renamed to \<^verbatim>\<open>b\<close>. The claim asks for
  a \<^verbatim>\<open>DuplicateTemplate\<close> failure. \<^verbatim>\<open>rename_template\<close> has no such check (the sibling
  \<^verbatim>\<open>new_template\<close> has one): it returns normally, the body of \<^verbatim>\<open>b\<close> is overwritten
  by the body of \<^verbatim>\<open>a\<close>, and the result is written to the file.
\<close>

theorem rename_template_overwrites:
  "rename_template plain_json WriteOk (Some ''General'') ''a'' (''b'', True)
     \<lparr>data = [(''General'', [(''a'', ''A''), (''b'', ''B'')])], templates_file = None\<rparr>
   = (Returned,
      \<lparr>data = [(''General'', [(''b'', ''A'')])],
       templates_file = Some [(''General'', [(''b'', ''A'')])]\<rparr>)"
  by (simp add: rename_template_def save_templates_def plain_json_def)

text \<open>
  What \<^verbatim>\<open>rename_template\<close> does keep of the rename contract: when the new name is
  not yet in the category, the body moves unchanged from the old key to the new one,
  every other template and category stays, and the document is written to the file.
\<close>

theorem rename_template_moves:
  assumes "category \<noteq> []" and "new_name \<noteq> []" and "new_name \<noteq> old_name"
    and "map_of (data s) category = Some templates"
    and "map_of templates old_name = Some body"
    and "\<not> has_key templates new_name"
  shows "\<exists>d. rename_template J WriteOk (Some category) old_name (new_name, True) s
             = (Returned, s\<lparr>data := d, templates_file := Some (dumps J d)\<rparr>)
           \<and> map_of d = (map_of (data s))(category \<mapsto> AList.delete old_name templates @ [(new_name, body)])
           \<and> map fst d = map fst (data s)
           \<and> map_of (AList.delete old_name templates @ [(new_name, body)])
               = (map_of templates)(old_name := None, new_name \<mapsto> body)"
proof -
  have fresh: "\<not> has_key (AList.delete old_name templates) new_name"
    using assms(6) by (simp add: has_key_def delete_keys)
  have keys: "category \<in> fst ` set (data s)"
    using assms(4) map_of_eq_None_iff [of "data s" category] by auto
  have m: "map_of (AList.delete old_name templates @ [(new_name, body)])
      = (map_of templates)(old_name := None, new_name \<mapsto> body)"
    using update_conv' [of new_name body "AList.delete old_name templates"]
    by (simp add: update_fresh [OF fresh] delete_conv')
  show ?thesis
    using assms keys m
    by (intro exI [of _ "AList.update category
          (AList.delete old_name templates @ [(new_name, body)]) (data s)"])
      (simp add: rename_template_def save_templates_ok update_fresh [OF fresh]
        update_conv' update_keys)
qed

theorem rename_template_moves_witness:
  "''General'' \<noteq> [] \<and> ''c'' \<noteq> [] \<and> ''c'' \<noteq> ''a''
   \<and> map_of [(''General'', [(''a'', ''A''), (''b'', ''B'')])] ''General''
       = Some [(''a'', ''A''), (''b'', ''B'')]
   \<and> map_of [(''a'', ''A''), (''b'', ''B'')] ''a'' = Some ''A''
   \<and> \<not> has_key [(''a'', ''A''), (''b'', ''B'')] ''c''
   \<and> rename_template plain_json WriteOk (Some ''General'') ''a'' (''c'', True)
          \<lparr>data = [(''General'', [(''a'', ''A''), (''b'', ''B'')])], templates_file = None\<rparr>
        = (Returned,
           \<lparr>data = [(''General'', [(''b'', ''B''), (''c'', ''A'')])],
            templates_file = Some [(''General'', [(''b'', ''B''), (''c'', ''A'')])]\<rparr>)"
proof -
  let ?s = "\<lparr>data = [(''General'', [(''a'', ''A''), (''b'', ''B'')])],
             templates_file = None :: document option\<rparr>"
  have a: "''General'' \<noteq> []" "''c'' \<noteq> []" "''c'' \<noteq> ''a''"
    "map_of (data ?s) ''General'' = Some [(''a'', ''A''), (''b'', ''B'')]"
    "map_of [(''a'', ''A''), (''b'', ''B'')] ''a'' = Some ''A''"
    "\<not> has_key [(''a'', ''A''), (''b'', ''B'')] ''c''"
    by (simp_all add: has_key_def)
  from rename_template_moves [OF a, of plain_json] obtain d where
    "rename_template plain_json WriteOk (Some ''General'') ''a'' (''c'', True) ?s
          = (Returned, ?s\<lparr>data := d, templates_file := Some (dumps plain_json d)\<rparr>)
     \<and> map_of d = (map_of (data ?s))
          (''General'' \<mapsto> AList.delete ''a'' [(''a'', ''A''), (''b'', ''B'')] @ [(''c'', ''A'')])
     \<and> map fst d = map fst (data ?s)
     \<and> map_of (AList.delete ''a'' [(''a'', ''A''), (''b'', ''B'')] @ [(''c'', ''A'')])
         = (map_of [(''a'', ''A''), (''b'', ''B'')])(''a'' := None, ''c'' \<mapsto> ''A'')" ..
  then have "rename_template plain_json WriteOk (Some ''General'') ''a'' (''c'', True) ?s
          = (Returned, ?s\<lparr>data := d, templates_file := Some (dumps plain_json d)\<rparr>)"
    by (rule conjunct1)
  then have "rename_template plain_json WriteOk (Some ''General'') ''a'' (''c'', True) ?s
        = (Returned,
           \<lparr>data = [(''General'', [(''b'', ''B''), (''c'', ''A'')])],
            templates_file = Some [(''General'', [(''b'', ''B''), (''c'', ''A'')])]\<rparr>)"
    by (simp add: rename_template_def save_templates_def plain_json_def)
  with a show ?thesis by simp
qed

lemma map_of_has_key: "map_of al k = Some v \<Longrightarrow> has_key al k"
  by (simp add: has_key_map_of)

text \<open>
  Claim C4 as stated fails: it asks for a \<^verbatim>\<open>NotFound\<close> failure when the template name
  is absent from the category. \<^verbatim>\<open>update_template\<close> assigns
  \<^verbatim>\<open>self.data[category][template_name] = new_text\<close>, which inserts the name: on an
  empty category \<^verbatim>\<open>General\<close> it returns normally and the template \<^verbatim>\<open>x\<close> exists
  afterwards, in memory and in the file.
\<close>

theorem update_template_inserts:
  "\<not> has_key [] ''x''
   \<and> update_template plain_json WriteOk ''General'' ''x'' ''body''
       \<lparr>data = [(''General'', [])], templates_file = None\<rparr>
     = (Returned,
        \<lparr>data = [(''General'', [(''x'', ''body'')])],
         templates_file = Some [(''General'', [(''x'', ''body'')])]\<rparr>)"
  by (simp add: update_template_def save_templates_def plain_json_def has_key_def)

text \<open>
  Claim C4, amended. When the category is present, \<^verbatim>\<open>update_template\<close> sets the body
  stored under the name to the new text, replacing the body when the template exists
  and inserting the template (last in the category) when it does not, and writes the
  document to the file; no other template of the category, no other category and no
  key order changes. When the category is absent it raises \<^verbatim>\<open>KeyError\<close> and leaves
  the document and the file as they were.
\<close>

theorem update_template_sets_body:
  "(map_of (data s) category = Some templates \<longrightarrow>
      (\<exists>d. update_template J WriteOk category name new_text s
              = (Returned, s\<lparr>data := d, templates_file := Some (dumps J d)\<rparr>)
          \<and> map_of d = (map_of (data s))(category \<mapsto> AList.update name new_text templates)
          \<and> map fst d = map fst (data s))
      \<and> map_of (AList.update name new_text templates) = (map_of templates)(name \<mapsto> new_text)
      \<and> map fst (AList.update name new_text templates)
          = (if has_key templates name then map fst templates else map fst templates @ [name]))
   \<and> (map_of (data s) category = None \<longrightarrow>
        update_template J io category name new_text s = (Raised (KeyError category), s))"
proof -
  have "\<exists>d. update_template J WriteOk category name new_text s
              = (Returned, s\<lparr>data := d, templates_file := Some (dumps J d)\<rparr>)
          \<and> map_of d = (map_of (data s))(category \<mapsto> AList.update name new_text templates)
          \<and> map fst d = map fst (data s)"
    if "map_of (data s) category = Some templates"
    using that map_of_has_key [OF that]
    by (intro exI [of _ "AList.update category (AList.update name new_text templates) (data s)"])
      (simp add: update_template_def save_templates_ok update_conv' update_keys has_key_def)
  then show ?thesis
    by (simp add: update_template_def update_conv' update_keys has_key_def)
qed

theorem update_template_sets_body_witness:
  "map_of [(''General'', [(''t'', ''old''), (''u'', ''keep'')])] ''General''
     = Some [(''t'', ''old''), (''u'', ''keep'')]
   \<and> update_template plain_json WriteOk ''General'' ''t'' ''new''
       \<lparr>data = [(''General'', [(''t'', ''old''), (''u'', ''keep'')])], templates_file = None\<rparr>
     = (Returned,
        \<lparr>data = [(''General'', [(''t'', ''new''), (''u'', ''keep'')])],
         templates_file = Some [(''General'', [(''t'', ''new''), (''u'', ''keep'')])]\<rparr>)
   \<and> map_of [(''General'', [])] ''Other'' = None
   \<and> update_template plain_json WriteOk ''Other'' ''t'' ''new''
       \<lparr>data = [(''General'', [])], templates_file = None\<rparr>
     = (Raised (KeyError ''Other''), \<lparr>data = [(''General'', [])], templates_file = None\<rparr>)"
proof -
  let ?s = "\<lparr>data = [(''General'', [(''t'', ''old''), (''u'', ''keep'')])],
             templates_file = None :: document option\<rparr>"
  let ?e = "\<lparr>data = [(''General'', [])], templates_file = None :: document option\<rparr>"
  have a: "map_of (data ?s) ''General'' = Some [(''t'', ''old''), (''u'', ''keep'')]"
    and b: "map_of (data ?e) ''Other'' = None"
    by simp_all
  note t1 = update_template_sets_body
      [of ?s "''General''" "[(''t'', ''old''), (''u'', ''keep'')]" plain_json "''t''" "''new''",
       THEN conjunct1, rule_format, OF a, THEN conjunct1]
  note t2 = update_template_sets_body
      [of ?e "''Other''" "[]" plain_json "''t''" "''new''" WriteOk,
       THEN conjunct2, rule_format, OF b]
  from t1 obtain d where
    d: "update_template plain_json WriteOk ''General'' ''t'' ''new'' ?s
          = (Returned, ?s\<lparr>data := d, templates_file := Some (dumps plain_json d)\<rparr>)"
    by blast
  have "update_template plain_json WriteOk ''General'' ''t'' ''new'' ?s
     = (Returned,
        \<lparr>data = [(''General'', [(''t'', ''new''), (''u'', ''keep'')])],
         templates_file = Some [(''General'', [(''t'', ''new''), (''u'', ''keep'')])]\<rparr>)"
    using d by (simp add: update_template_def save_templates_def plain_json_def)
  with t2 show ?thesis by simp
qed

text \<open>
  Claim C5 as stated fails: it asks that a mutation ending in an error leaves the
  in-memory document as it was, equal to the last state written. \<^verbatim>\<open>update_template\<close>
  assigns first and calls \<^verbatim>\<open>save_templates\<close> afterwards: when the write raises, the
  document in memory already holds the new body while the file still holds the old
  one.
\<close>

theorem failed_write_keeps_mutation:
  "fst (update_template plain_json (WriteFails (Some [(''General'', [(''t'', ''old'')])]))
          ''General'' ''t'' ''new''
          \<lparr>data = [(''General'', [(''t'', ''old'')])],
           templates_file = Some [(''General'', [(''t'', ''old'')])]\<rparr>)
     = Raised OSError
   \<and> snd (update_template plain_json (WriteFails (Some [(''General'', [(''t'', ''old'')])]))
          ''General'' ''t'' ''new''
          \<lparr>data = [(''General'', [(''t'', ''old'')])],
           templates_file = Some [(''General'', [(''t'', ''old'')])]\<rparr>)
     = \<lparr>data = [(''General'', [(''t'', ''new'')])],
        templates_file = Some [(''General'', [(''t'', ''old'')])]\<rparr>"
  by (simp add: update_template_def save_templates_def)

lemma mutate_precondition_error:
  assumes "fst (mutate J io m s) = Warned w \<or> fst (mutate J io m s) = Raised (KeyError k)"
  shows "snd (mutate J io m s) = s"
proof (cases m)
  case (NewCategory dialog)
  with assms show ?thesis
    by (cases io) (auto simp: new_category_def save_templates_def split: prod.splits if_splits)
next
  case (DeleteCategory cat yes)
  with assms show ?thesis
    by (cases io)
      (auto simp: delete_category_def save_templates_def split: option.splits if_splits)
next
  case (NewTemplate cat dialog)
  with assms show ?thesis
    by (cases io)
      (auto simp: new_template_def save_templates_def split: option.splits prod.splits if_splits)
next
  case (RenameTemplate cat old_name dialog)
  with assms show ?thesis
    by (cases io)
      (auto simp: rename_template_def save_templates_def
          split: option.splits prod.splits if_splits)
next
  case (UpdateTemplate category template_name new_text)
  with assms show ?thesis
    by (cases io) (auto simp: update_template_def save_templates_def split: option.splits)
next
  case (DeleteTemplate tmpl cat yes)
  with assms show ?thesis
    by (cases io)
      (auto simp: delete_template_def save_templates_def split: option.splits if_splits)
qed

lemma mutate_write_error:
  assumes "fst (mutate J io m s) = Raised OSError"
  shows "\<exists>left. io = WriteFails left \<and> templates_file (snd (mutate J io m s)) = left"
    and "fst (mutate J WriteOk m s) = Returned"
proof -
  have "(\<exists>left. io = WriteFails left \<and> templates_file (snd (mutate J io m s)) = left)
      \<and> fst (mutate J WriteOk m s) = Returned"
  proof (cases m)
    case (NewCategory dialog)
    with assms show ?thesis
      by (cases io) (auto simp: new_category_def save_templates_def split: prod.splits if_splits)
  next
    case (DeleteCategory cat yes)
    with assms show ?thesis
      by (cases io)
        (auto simp: delete_category_def save_templates_def split: option.splits if_splits)
  next
    case (NewTemplate cat dialog)
    with assms show ?thesis
      by (cases io)
        (auto simp: new_template_def save_templates_def
            split: option.splits prod.splits if_splits)
  next
    case (RenameTemplate cat old_name dialog)
    with assms show ?thesis
      by (cases io)
        (auto simp: rename_template_def save_templates_def
            split: option.splits prod.splits if_splits)
  next
    case (UpdateTemplate category template_name new_text)
    with assms show ?thesis
      by (cases io) (auto simp: update_template_def save_templates_def split: option.splits)
  next
    case (DeleteTemplate tmpl cat yes)
    with assms show ?thesis
      by (cases io)
        (auto simp: delete_template_def save_templates_def split: option.splits if_splits)
  qed
  then show "\<exists>left. io = WriteFails left \<and> templates_file (snd (mutate J io m s)) = left"
    and "fst (mutate J WriteOk m s) = Returned"
    by simp_all
qed

lemma mutate_data_any_disk: "data (snd (mutate J io m s)) = data (snd (mutate J WriteOk m s))"
proof (cases m)
  case (NewCategory dialog)
  then show ?thesis
    by (cases io) (auto simp: new_category_def save_templates_def split: prod.splits)
next
  case (DeleteCategory cat yes)
  then show ?thesis
    by (cases io) (auto simp: delete_category_def save_templates_def split: option.splits)
next
  case (NewTemplate cat dialog)
  then show ?thesis
    by (cases io)
      (auto simp: new_template_def save_templates_def split: option.splits prod.splits)
next
  case (RenameTemplate cat old_name dialog)
  then show ?thesis
    by (cases io)
      (auto simp: rename_template_def save_templates_def split: option.splits prod.splits)
next
  case (UpdateTemplate category template_name new_text)
  then show ?thesis
    by (cases io) (auto simp: update_template_def save_templates_def split: option.splits)
next
  case (DeleteTemplate tmpl cat yes)
  then show ?thesis
    by (cases io)
      (auto simp: delete_template_def save_templates_def split: option.splits)
qed

text \<open>
  Claim C5, amended. A mutation of the store that ends in a warning or in a
  \<^verbatim>\<open>KeyError\<close> (a duplicate name, no category selected, an absent key) leaves the
  in-memory document and the file exactly as they were. A mutation that ends in the
  write error has been applied in memory: the document is the one that the same
  mutation leaves when the write succeeds, the file holds what the failed write left
  of it, and nothing is rolled back.
\<close>

theorem mutate_error_state:
  "(fst (mutate J io m s) = Warned w \<or> fst (mutate J io m s) = Raised (KeyError k)
      \<longrightarrow> snd (mutate J io m s) = s)
   \<and> (fst (mutate J io m s) = Raised OSError
      \<longrightarrow> (\<exists>left. io = WriteFails left \<and> templates_file (snd (mutate J io m s)) = left)
          \<and> fst (mutate J WriteOk m s) = Returned
          \<and> data (snd (mutate J io m s)) = data (snd (mutate J WriteOk m s)))"
  using mutate_precondition_error [of J io m s w k] mutate_write_error [of J io m s]
    mutate_data_any_disk [of J io m s]
  by blast

theorem mutate_error_state_witness:
  "fst (mutate plain_json WriteOk (NewCategory (''General'', True))
          \<lparr>data = [(''General'', [])], templates_file = None\<rparr>)
     = Warned ''Category name already exists!''
   \<and> snd (mutate plain_json WriteOk (NewCategory (''General'', True))
          \<lparr>data = [(''General'', [])], templates_file = None\<rparr>)
     = \<lparr>data = [(''General'', [])], templates_file = None\<rparr>
   \<and> fst (mutate plain_json WriteOk (UpdateTemplate ''Other'' ''t'' ''new'')
          \<lparr>data = [(''General'', [])], templates_file = None\<rparr>)
     = Raised (KeyError ''Other'')
   \<and> snd (mutate plain_json WriteOk (UpdateTemplate ''Other'' ''t'' ''new'')
          \<lparr>data = [(''General'', [])], templates_file = None\<rparr>)
     = \<lparr>data = [(''General'', [])], templates_file = None\<rparr>
   \<and> fst (mutate plain_json (WriteFails None) (UpdateTemplate ''General'' ''t'' ''new'')
          \<lparr>data = [(''General'', [])], templates_file = None\<rparr>)
     = Raised OSError
   \<and> data (snd (mutate plain_json (WriteFails None) (UpdateTemplate ''General'' ''t'' ''new'')
          \<lparr>data = [(''General'', [])], templates_file = None\<rparr>))
     = data (snd (mutate plain_json WriteOk (UpdateTemplate ''General'' ''t'' ''new'')
          \<lparr>data = [(''General'', [])], templates_file = None\<rparr>))"
proof -
  let ?s = "\<lparr>data = [(''General'', [])], templates_file = None :: document option\<rparr>"
  have a: "fst (mutate plain_json WriteOk (NewCategory (''General'', True)) ?s)
      = Warned ''Category name already exists!''"
    by (simp add: new_category_def has_key_def)
  have b: "fst (mutate plain_json WriteOk (UpdateTemplate ''Other'' ''t'' ''new'') ?s)
      = Raised (KeyError ''Other'')"
    by (simp add: update_template_def)
  have c: "fst (mutate plain_json (WriteFails None) (UpdateTemplate ''General'' ''t'' ''new'') ?s)
      = Raised OSError"
    by (simp add: update_template_def save_templates_def)
  note t1 = mutate_error_state
      [of plain_json WriteOk "NewCategory (''General'', True)" ?s
          "''Category name already exists!''" "''Other''",
       THEN conjunct1, rule_format, OF disjI1 [OF a]]
  note t2 = mutate_error_state
      [of plain_json WriteOk "UpdateTemplate ''Other'' ''t'' ''new''" ?s
          "''Category name already exists!''" "''Other''",
       THEN conjunct1, rule_format, OF disjI2 [OF b]]
  note t3 = mutate_error_state
      [of plain_json "WriteFails None" "UpdateTemplate ''General'' ''t'' ''new''" ?s
          "''Category name already exists!''" "''Other''",
       THEN conjunct2, rule_format, OF c, THEN conjunct2, THEN conjunct2]
  show ?thesis
    by (intro conjI a b c t1 t2 t3)
qed

text \<open>
  Claim C7 as stated fails for the empty name: \<^verbatim>\<open>new_category\<close> tests
  \<^verbatim>\<open>if ok and name\<close> before it looks the name up, so with a category named by the
  empty string present (a document read from the file may hold one) and the empty
  name entered, it returns without the duplicate warning.
\<close>

theorem new_category_ignores_empty_name:
  "has_key [([], [])] []
   \<and> new_category plain_json WriteOk ([], True) \<lparr>data = [([], [])], templates_file = None\<rparr>
     = (Returned, \<lparr>data = [([], [])], templates_file = None\<rparr>)
   \<and> Returned \<noteq> Warned ''Category name already exists!''"
  by (simp add: new_category_def has_key_def)

text \<open>
  Claim C7, amended. For a non-empty name, \<^verbatim>\<open>new_category\<close> warns that the category
  name already exists and leaves the document and the file unchanged when a category
  of that name is present; when none is, it appends an empty category under that
  name, every other category unchanged, and writes the document to the file. An
  empty name is ignored: nothing changes and nothing is reported.
\<close>

theorem new_category_creates:
  "(name \<noteq> [] \<and> has_key (data s) name \<longrightarrow>
      new_category J io (name, True) s = (Warned ''Category name already exists!'', s))
   \<and> (name \<noteq> [] \<and> \<not> has_key (data s) name \<longrightarrow>
        new_category J WriteOk (name, True) s
          = (Returned, s\<lparr>data := data s @ [(name, [])],
                         templates_file := Some (dumps J (data s @ [(name, [])]))\<rparr>)
        \<and> data (snd (new_category J io (name, True) s)) = data s @ [(name, [])]
        \<and> map_of (data s @ [(name, [])]) = (map_of (data s))(name \<mapsto> []))
   \<and> new_category J io ([], True) s = (Returned, s)"
proof -
  have "map_of (data s @ [(name, [])]) = (map_of (data s))(name \<mapsto> [])"
    if "\<not> has_key (data s) name"
    using update_conv' [of name "[]" "data s"] by (simp add: update_fresh [OF that])
  then show ?thesis
    by (cases io) (simp_all add: new_category_def save_templates_def update_fresh)
qed

theorem new_category_creates_witness:
  "''General'' \<noteq> [] \<and> has_key [(''General'', [])] ''General''
   \<and> new_category plain_json WriteOk (''General'', True)
       \<lparr>data = [(''General'', [])], templates_file = None\<rparr>
     = (Warned ''Category name already exists!'',
        \<lparr>data = [(''General'', [])], templates_file = None\<rparr>)
   \<and> ''Work'' \<noteq> [] \<and> \<not> has_key [(''General'', [])] ''Work''
   \<and> new_category plain_json WriteOk (''Work'', True)
       \<lparr>data = [(''General'', [])], templates_file = None\<rparr>
     = (Returned,
        \<lparr>data = [(''General'', []), (''Work'', [])],
         templates_file = Some [(''General'', []), (''Work'', [])]\<rparr>)"
proof -
  let ?s = "\<lparr>data = [(''General'', [])], templates_file = None :: document option\<rparr>"
  have a: "''General'' \<noteq> [] \<and> has_key (data ?s) ''General''"
    and b: "''Work'' \<noteq> [] \<and> \<not> has_key (data ?s) ''Work''"
    by (simp_all add: has_key_def)
  note t1 = new_category_creates [of "''General''" ?s plain_json WriteOk,
      THEN conjunct1, rule_format, OF a]
  note t2 = new_category_creates [of "''Work''" ?s plain_json WriteOk,
      THEN conjunct2, THEN conjunct1, rule_format, OF b, THEN conjunct1]
  show ?thesis
    using a b t1 t2 by (simp add: plain_json_def has_key_def)
qed

lemma hex_value_digit: "n < 16 \<Longrightarrow> hex_value (hex_digit n) = Some n"
  by (auto simp: hex_value_def hex_digit_def Let_def)

lemma hex4_escape:
  assumes "n < 256"
  shows "hex4 [CHR ''0'', CHR ''0'', hex_digit (n div 16), hex_digit (n mod 16)] = Some n"
proof -
  have "n div 16 < 16" using assms by simp
  moreover have "hex_value CHR ''0'' = Some 0" by (simp add: hex_value_def)
  ultimately show ?thesis
    by (simp add: hex4_def hex_value_digit)
qed

lemma scan_string_escape:
  "scan_string (escape_char c @ r) = map_option (\<lambda>(s, rest). (c # s, rest)) (scan_string r)"
proof -
  have u: "hex4 [CHR ''0'', CHR ''0'', hex_digit (of_char c div 16), hex_digit (of_char c mod 16)]
      = Some (of_char c)"
    by (rule hex4_escape) simp
  show ?thesis
    by (simp add: escape_char_def unescape_def u)
qed

lemma scan_string_escaped:
  "scan_string (concat (map escape_char s) @ CHR 0x22 # r) = Some (s, r)"
  by (induction s) (simp_all add: scan_string_escape)

lemma parse_string_encode: "parse_string (encode_string s @ r) = Some (s, r)"
  by (simp add: parse_string_def encode_string_def scan_string_escaped)

lemma skip_ws_spaces: "skip_ws (replicate n CHR '' '' @ x) = skip_ws x"
  by (induction n) (simp_all add: skip_ws_def)

lemma skip_ws_indent: "skip_ws (indent_to level @ x) = skip_ws x"
  using skip_ws_spaces [of "4 * level" x] by (simp add: indent_to_def skip_ws_def)

lemma skip_ws_string: "skip_ws (encode_string s @ x) = encode_string s @ x"
  by (simp add: encode_string_def skip_ws_def)

lemma skip_ws_object: "skip_ws (dump_object level members @ x) = dump_object level members @ x"
  by (simp add: dump_object_def skip_ws_def)

lemma skip_ws_members:
  "members \<noteq> [] \<Longrightarrow> skip_ws (dump_members level members @ x) = dump_members level members @ x"
  by (induction level members rule: dump_members.induct)
    (simp_all add: encode_string_def skip_ws_def)

lemma parse_members_dump:
  assumes "items \<noteq> []"
    and "\<And>k v r. (k, v) \<in> set items \<Longrightarrow> parse_value (render v @ r) = Some (v, r)"
    and "\<And>k v r. (k, v) \<in> set items \<Longrightarrow> skip_ws (render v @ r) = render v @ r"
  shows "parse_members parse_value
           (dump_members level (map (\<lambda>(k, v). (k, render v)) items)
              @ indent_to outer @ CHR ''}'' # rest)
     = Some (items, rest)"
  using assms
proof (induction items rule: list_nonempty_induct)
  case (single x)
  obtain k v where x: "x = (k, v)" by (cases x)
  have pv: "parse_value (render v @ r) = Some (v, r)" for r
    using single(1) [of k v r] by (simp add: x)
  have ws: "skip_ws (render v @ r) = render v @ r" for r
    using single(2) [of k v r] by (simp add: x)
  have close: "skip_ws (indent_to outer @ CHR ''}'' # rest) = CHR ''}'' # rest"
    by (simp add: skip_ws_indent) (simp add: skip_ws_def)
  have colon: "skip_ws ('': '' @ y) = '': '' @ y" for y
    by (simp add: skip_ws_def)
  have space: "skip_ws (CHR '' '' # render v @ y) = render v @ y" for y
    using ws [of y] by (simp add: skip_ws_def)
  show ?case
    by (subst parse_members.simps)
      (simp add: x parse_string_encode colon [simplified] space pv close)
next
  case (cons x items)
  obtain k v where x: "x = (k, v)" by (cases x)
  obtain m ms where items: "items = m # ms" using cons(1) by (cases items) auto
  have pv: "parse_value (render v @ r) = Some (v, r)" for r
    using cons(3) [of k v r] by (simp add: x)
  have ws: "skip_ws (render v @ r) = render v @ r" for r
    using cons(4) [of k v r] by (simp add: x)
  let ?tail = "dump_members level (map (\<lambda>(k, v). (k, render v)) items)
      @ indent_to outer @ CHR ''}'' # rest"
  have IH: "parse_members parse_value ?tail = Some (items, rest)"
  proof (rule cons(2))
    fix k' v' r
    assume "(k', v') \<in> set items"
    then show "parse_value (render v' @ r) = Some (v', r)"
      and "skip_ws (render v' @ r) = render v' @ r"
      using cons(3) [of k' v' r] cons(4) [of k' v' r] by simp_all
  qed
  have next_ws: "skip_ws (indent_to level @ ?tail) = ?tail"
    using skip_ws_members [of "map (\<lambda>(k, v). (k, render v)) items" level
        "indent_to outer @ CHR ''}'' # rest"] cons(1)
    by (simp add: skip_ws_indent)
  have shape: "dump_members level (map (\<lambda>(k, v). (k, render v)) (x # items))
        @ indent_to outer @ CHR ''}'' # rest
      = encode_string k @ '': '' @ render v @ '','' @ indent_to level @ ?tail"
    by (simp add: x items split: prod.splits)
  have colon: "skip_ws ('': '' @ y) = '': '' @ y" for y
    by (simp add: skip_ws_def)
  have space: "skip_ws (CHR '' '' # render v @ y) = render v @ y" for y
    using ws [of y] by (simp add: skip_ws_def)
  have comma: "skip_ws ('','' @ y) = '','' @ y" for y
    by (simp add: skip_ws_def)
  show ?case
    unfolding shape
    by (subst parse_members.simps)
      (simp add: x parse_string_encode colon [simplified] space pv comma [simplified] next_ws IH)
qed

lemma fold_update_fresh:
  "distinct (map fst (acc @ pairs)) \<Longrightarrow>
     fold (\<lambda>(k, v) d. AList.update k v d) pairs acc = acc @ pairs"
proof (induction pairs arbitrary: acc)
  case Nil
  show ?case by simp
next
  case (Cons p pairs)
  obtain k v where p: "p = (k, v)" by (cases p)
  have "\<not> has_key acc k" using Cons.prems by (auto simp: p has_key_def)
  then have "AList.update k v acc = acc @ [(k, v)]" by (rule update_fresh)
  moreover have "distinct (map fst ((acc @ [(k, v)]) @ pairs))"
    using Cons.prems by (simp add: p)
  ultimately show ?case
    using Cons.IH [of "acc @ [(k, v)]"] by (simp add: p)
qed

lemma dict_of_pairs_distinct: "distinct (map fst pairs) \<Longrightarrow> dict_of_pairs pairs = pairs"
  using fold_update_fresh [of "[]" pairs] by (simp add: dict_of_pairs_def)

lemma dump_members_first:
  "members \<noteq> [] \<Longrightarrow> \<exists>t. dump_members level members = CHR 0x22 # t"
  by (induction level members rule: dump_members.induct) (simp_all add: encode_string_def)

lemma parse_object_dump:
  assumes "distinct (map fst items)"
    and "\<And>k v r. (k, v) \<in> set items \<Longrightarrow> parse_value (render v @ r) = Some (v, r)"
    and "\<And>k v r. (k, v) \<in> set items \<Longrightarrow> skip_ws (render v @ r) = render v @ r"
  shows "parse_object parse_value
           (dump_object level (map (\<lambda>(k, v). (k, render v)) items) @ rest)
     = Some (items, rest)"
proof (cases "items = []")
  case True
  then show ?thesis
    by (simp add: parse_object_def dump_object_def skip_ws_def)
next
  case False
  let ?members = "dump_members (level + 1) (map (\<lambda>(k, v). (k, render v)) items)"
  let ?tail = "?members @ indent_to level @ CHR ''}'' # rest"
  have parsed: "parse_members parse_value ?tail = Some (items, rest)"
    using False assms(2,3) by (rule parse_members_dump)
  have ws: "skip_ws (indent_to (level + 1) @ ?tail) = ?tail"
    using skip_ws_members [of "map (\<lambda>(k, v). (k, render v)) items" "level + 1"
        "indent_to level @ CHR ''}'' # rest"] False
    by (simp add: skip_ws_indent)
  from dump_members_first [of "map (\<lambda>(k, v). (k, render v)) items" "level + 1"] False
  obtain t where "?members = CHR 0x22 # t" by auto
  then have first: "?tail = CHR 0x22 # (t @ indent_to level @ CHR ''}'' # rest)" by simp
  have "dump_object level (map (\<lambda>(k, v). (k, render v)) items) @ rest
      = CHR ''{'' # indent_to (level + 1) @ ?tail"
    using False by (simp add: dump_object_def)
  then show ?thesis
    using parsed ws first assms(1)
    by (simp add: parse_object_def dict_of_pairs_distinct)
qed

lemma parse_category_dump:
  assumes "distinct (map fst templates)"
  shows "parse_object parse_string (dump_category templates @ rest) = Some (templates, rest)"
  unfolding dump_category_def
  using assms by (rule parse_object_dump) (simp_all add: parse_string_encode skip_ws_string)

lemma json_load_dump:
  assumes "unique_names d"
  shows "json_load (json_dump d) = Some d"
proof -
  have inner: "distinct (map fst templates)" if "(category, templates) \<in> set d"
    for category templates
    using assms that by (auto simp: unique_names_def list_all_iff)
  have "parse_object (parse_object parse_string)
          (dump_object 0 (map (\<lambda>(category, templates). (category, dump_category templates)) d) @ [])
      = Some (d, [])"
  proof (rule parse_object_dump)
    show "distinct (map fst d)" using assms by (simp add: unique_names_def)
  next
    fix k v r
    assume "(k, v) \<in> set d"
    then show "parse_object parse_string (dump_category v @ r) = Some (v, r)"
      by (intro parse_category_dump inner)
  next
    fix k v r
    show "skip_ws (dump_category v @ r) = dump_category v @ r"
      by (simp add: dump_category_def skip_ws_object)
  qed
  then show ?thesis
    by (simp add: json_load_def json_dump_def skip_ws_object [of 0 _ "[]", simplified])
      (simp add: skip_ws_def)
qed

text \<open>
  Claim C8. For every document, its category names and the template names of each
  category unique as in a dictionary, \<^verbatim>\<open>save_templates\<close> followed by
  \<^verbatim>\<open>load_templates\<close> yields the document again, in the same editor or in one
  started later on the same file: the save writes the JSON text of the whole of
  \<^verbatim>\<open>self.data\<close>, the file exists afterwards, so the load reads it and does not fall
  back to the default document, and reading the text gives back every category,
  template name and body, in order.
\<close>

theorem save_then_load:
  assumes "unique_names D"
    and "data s = D"
    and "templates_file t = templates_file (snd (save_templates python_json WriteOk s))"
  shows "json_load (json_dump D) = Some D
       \<and> save_templates python_json WriteOk s
           = (Returned, s\<lparr>templates_file := Some (json_dump D)\<rparr>)
       \<and> load_templates python_json (snd (save_templates python_json WriteOk s))
           = (Returned, s\<lparr>templates_file := Some (json_dump D)\<rparr>)
       \<and> load_templates python_json t = (Returned, t\<lparr>data := D\<rparr>)"
  using assms json_load_dump [OF assms(1)]
  by (simp add: save_templates_def load_templates_def python_json_def)

theorem save_then_load_witness:
  "unique_names [(''General'', [(''greet'', ''Hi [name]!'' @ [CHR 0x0A]), (''q'', [CHR 0x22, CHR 0x5C, CHR 0xE9])]), (''Empty'', [])]
   \<and> json_dump [(''General'', [(''greet'', ''Hi [name]!'' @ [CHR 0x0A]), (''q'', [CHR 0x22, CHR 0x5C, CHR 0xE9])]), (''Empty'', [])]
       = ''{'' @ [CHR 0x0A] @ ''    '' @ [CHR 0x22] @ ''General'' @ [CHR 0x22] @ '': {'' @ [CHR 0x0A]
           @ ''        '' @ [CHR 0x22] @ ''greet'' @ [CHR 0x22] @ '': '' @ [CHR 0x22]
           @ ''Hi [name]!'' @ [CHR 0x5C] @ ''n'' @ [CHR 0x22] @ '','' @ [CHR 0x0A]
           @ ''        '' @ [CHR 0x22] @ ''q'' @ [CHR 0x22] @ '': '' @ [CHR 0x22]
           @ [CHR 0x5C, CHR 0x22, CHR 0x5C, CHR 0x5C, CHR 0x5C] @ ''u00e9'' @ [CHR 0x22] @ [CHR 0x0A]
           @ ''    },'' @ [CHR 0x0A]
           @ ''    '' @ [CHR 0x22] @ ''Empty'' @ [CHR 0x22] @ '': {}'' @ [CHR 0x0A] @ ''}''
   \<and> json_load (json_dump [(''General'', [(''greet'', ''Hi [name]!'' @ [CHR 0x0A]), (''q'', [CHR 0x22, CHR 0x5C, CHR 0xE9])]), (''Empty'', [])])
       = Some [(''General'', [(''greet'', ''Hi [name]!'' @ [CHR 0x0A]), (''q'', [CHR 0x22, CHR 0x5C, CHR 0xE9])]), (''Empty'', [])]
   \<and> load_templates python_json
       \<lparr>data = [],
        templates_file = Some (json_dump [(''General'', [(''greet'', ''Hi [name]!'' @ [CHR 0x0A]), (''q'', [CHR 0x22, CHR 0x5C, CHR 0xE9])]), (''Empty'', [])])\<rparr>
     = (Returned,
        \<lparr>data = [(''General'', [(''greet'', ''Hi [name]!'' @ [CHR 0x0A]), (''q'', [CHR 0x22, CHR 0x5C, CHR 0xE9])]), (''Empty'', [])],
         templates_file = Some (json_dump [(''General'', [(''greet'', ''Hi [name]!'' @ [CHR 0x0A]), (''q'', [CHR 0x22, CHR 0x5C, CHR 0xE9])]), (''Empty'', [])])\<rparr>)"
proof -
  let ?D = "[(''General'', [(''greet'', ''Hi [name]!'' @ [CHR 0x0A]), (''q'', [CHR 0x22, CHR 0x5C, CHR 0xE9])]), (''Empty'', [])] :: document"
  let ?s = "\<lparr>data = ?D, templates_file = None :: string option\<rparr>"
  let ?t = "\<lparr>data = [] :: document, templates_file = Some (json_dump ?D)\<rparr>"
  have a: "unique_names ?D" by (simp add: unique_names_def)
  have b: "data ?s = ?D" by simp
  have c: "templates_file ?t = templates_file (snd (save_templates python_json WriteOk ?s))"
    by (simp add: save_templates_def python_json_def)
  have d: "json_dump ?D
       = ''{'' @ [CHR 0x0A] @ ''    '' @ [CHR 0x22] @ ''General'' @ [CHR 0x22] @ '': {'' @ [CHR 0x0A]
           @ ''        '' @ [CHR 0x22] @ ''greet'' @ [CHR 0x22] @ '': '' @ [CHR 0x22]
           @ ''Hi [name]!'' @ [CHR 0x5C] @ ''n'' @ [CHR 0x22] @ '','' @ [CHR 0x0A]
           @ ''        '' @ [CHR 0x22] @ ''q'' @ [CHR 0x22] @ '': '' @ [CHR 0x22]
           @ [CHR 0x5C, CHR 0x22, CHR 0x5C, CHR 0x5C, CHR 0x5C] @ ''u00e9'' @ [CHR 0x22] @ [CHR 0x0A]
           @ ''    },'' @ [CHR 0x0A]
           @ ''    '' @ [CHR 0x22] @ ''Empty'' @ [CHR 0x22] @ '': {}'' @ [CHR 0x0A] @ ''}''"
    by code_simp
  note t = save_then_load [OF a b c]
  note r1 = t [THEN conjunct1]
  note r4 = t [THEN conjunct2, THEN conjunct2, THEN conjunct2]
  have r4': "load_templates python_json ?t
      = (Returned, \<lparr>data = ?D, templates_file = Some (json_dump ?D)\<rparr>)"
    using r4 by simp
  show ?thesis
    by (intro conjI a d r1 r4')
qed

lemma list_all_update:
  "list_all P al \<Longrightarrow> P (k, v) \<Longrightarrow> list_all P (AList.update k v al)"
  by (induction al) auto

lemma list_all_delete: "list_all P al \<Longrightarrow> list_all P (AList.delete k al)"
  by (induction al) auto

lemma unique_names_update:
  assumes "unique_names d" and "distinct (map fst templates)"
  shows "unique_names (AList.update category templates d)"
  using assms unfolding unique_names_def
  by (simp add: distinct_update list_all_update)

lemma unique_names_delete:
  assumes "unique_names d"
  shows "unique_names (AList.delete category d)"
  using assms unfolding unique_names_def
  by (simp add: distinct_delete list_all_delete)

lemma unique_names_lookup:
  assumes "unique_names d" and "map_of d category = Some templates"
  shows "distinct (map fst templates)"
proof -
  from assms(2) have "(category, templates) \<in> set d" by (rule map_of_SomeD)
  moreover from assms(1) have "\<forall>entry \<in> set d. distinct (map fst (snd entry))"
    by (simp add: unique_names_def list_all_iff)
  ultimately show ?thesis by force
qed

lemma save_templates_data: "data (snd (save_templates J io s)) = data s"
  by (cases io) (simp_all add: save_templates_def)

text \<open>
  The data model's invariant: category names are unique within the document and
  template names within a category. Every mutation keeps it, whatever its outcome,
  so the association lists stay dictionaries.
\<close>

theorem mutate_keeps_unique_names:
  assumes "unique_names (data s)"
  shows "unique_names (data (snd (mutate J io m s)))"
proof (cases m)
  case (NewCategory dialog)
  with assms show ?thesis
    by (auto simp: new_category_def save_templates_data unique_names_update split: prod.splits)
next
  case (DeleteCategory cat yes)
  with assms show ?thesis
    by (auto simp: delete_category_def save_templates_data unique_names_delete
        split: option.splits)
next
  case (NewTemplate cat dialog)
  with assms show ?thesis
    by (auto simp: new_template_def save_templates_data distinct_update
        intro!: unique_names_update dest: unique_names_lookup split: option.splits prod.splits)
next
  case (RenameTemplate cat old_name dialog)
  with assms show ?thesis
    by (auto simp: rename_template_def save_templates_data distinct_update distinct_delete
        intro!: unique_names_update dest: unique_names_lookup split: option.splits prod.splits)
next
  case (UpdateTemplate category template_name new_text)
  with assms show ?thesis
    by (auto simp: update_template_def save_templates_data distinct_update
        intro!: unique_names_update dest: unique_names_lookup split: option.splits)
next
  case (DeleteTemplate tmpl cat yes)
  with assms show ?thesis
    by (auto simp: delete_template_def save_templates_data distinct_delete
        intro!: unique_names_update dest: unique_names_lookup split: option.splits)
qed

theorem mutate_keeps_unique_names_witness:
  "unique_names [(''General'', [(''a'', ''A'')])]
   \<and> unique_names (data (snd (mutate plain_json WriteOk (RenameTemplate (Some ''General'') ''a'' (''b'', True))
        \<lparr>data = [(''General'', [(''a'', ''A'')])], templates_file = None\<rparr>)))
   \<and> data (snd (mutate plain_json WriteOk (RenameTemplate (Some ''General'') ''a'' (''b'', True))
        \<lparr>data = [(''General'', [(''a'', ''A'')])], templates_file = None\<rparr>))
       = [(''General'', [(''b'', ''A'')])]"
proof -
  let ?s = "\<lparr>data = [(''General'', [(''a'', ''A'')])], templates_file = None :: document option\<rparr>"
  have a: "unique_names (data ?s)" by (simp add: unique_names_def)
  have b: "data (snd (mutate plain_json WriteOk (RenameTemplate (Some ''General'') ''a'' (''b'', True)) ?s))
       = [(''General'', [(''b'', ''A'')])]"
    by (simp add: rename_template_def save_templates_def)
  from mutate_keeps_unique_names [OF a, of plain_json WriteOk
      "RenameTemplate (Some ''General'') ''a'' (''b'', True)"] a b
  show ?thesis by simp
qed

subsection \<open>Rendering\<close>


lemma preview_loop_fold:
  "preview_loop fs t
     = fold (\<lambda>field text. str_replace text (''['' @ field @ '']'') (''<'' @ field @ ''>'')) fs t"
  by (induction fs arbitrary: t) (simp_all add: bracketed_def angled_def)

lemma update_preview_eq:
  "update_preview s = Some (preview_loop (extractFields_spec s) s)"
  by (simp add: update_preview_def get_template_fields_eq_spec)

lemma fill_loop_fold:
  assumes "\<forall>field \<in> set fs. inputs field = Some (typed field)"
  shows "fill_loop inputs fs t
     = Inr (fold (\<lambda>field text. str_replace text (''['' @ field @ '']'') (typed field)) fs t)"
  using assms by (induction fs arbitrary: t) (simp_all add: bracketed_def)

lemma replace_scan_absent:
  "\<not> sublist old s \<Longrightarrow> replace_scan s old new = s"
proof (induction s)
  case Nil
  show ?case by simp
next
  case (Cons c cs)
  then have "\<not> prefix old (c # cs)" and "\<not> sublist old cs"
    by (simp_all add: sublist_Cons_right)
  with Cons.IH show ?case by simp
qed

lemma replace_scan_first:
  assumes "old \<noteq> []" and "\<not> sublist old (u @ butlast old)"
  shows "replace_scan (u @ old @ v) old new = u @ new @ replace_scan v old new"
  using assms(2)
proof (induction u)
  case Nil
  from assms(1) obtain a old' where old: "old = a # old'" by (cases old) auto
  have "replace_scan ((a # old') @ v) (a # old') new
      = new @ replace_scan (drop (length (a # old')) ((a # old') @ v)) (a # old') new"
    by simp
  then show ?case by (simp add: old)
next
  case (Cons c u)
  have no: "\<not> prefix old (c # u @ old @ v)"
  proof
    assume p: "prefix old (c # u @ old @ v)"
    have "c # u @ old @ v = (c # u @ butlast old) @ (last old # v)"
      using assms(1) by simp
    then have "prefix (c # u @ butlast old) (c # u @ old @ v)"
      by (metis prefixI)
    moreover have "length old \<le> length (c # u @ butlast old)" by simp
    ultimately have "prefix old (c # u @ butlast old)"
      using p by (rule prefix_length_prefix [rotated])
    then have "sublist old ((c # u) @ butlast old)" by (simp add: prefix_imp_sublist)
    with Cons.prems show False by simp
  qed
  have "\<not> sublist old (u @ butlast old)"
    using Cons.prems by (simp add: sublist_Cons_right)
  from Cons.IH [OF this] no show ?case by simp
qed

lemma str_replace_absent:
  "old \<noteq> [] \<Longrightarrow> \<not> sublist old t \<Longrightarrow> str_replace t old new = t"
  by (simp add: str_replace_def replace_scan_absent)

lemma str_replace_first:
  "old \<noteq> [] \<Longrightarrow> \<not> sublist old (u @ butlast old) \<Longrightarrow>
     str_replace (u @ old @ v) old new = u @ new @ str_replace v old new"
  by (simp add: str_replace_def replace_scan_first)

lemma scan_shape:
  obtains (none) "CHR ''['' \<notin> set s"
  | (unterminated) before rest where
      "s = before @ CHR ''['' # rest" "CHR ''['' \<notin> set before" "CHR '']'' \<notin> set rest"
  | (field) before f after where
      "s = before @ CHR ''['' # f @ CHR '']'' # after" "CHR ''['' \<notin> set before"
      "CHR '']'' \<notin> set f"
proof (cases "CHR ''['' \<in> set s")
  case False
  then show ?thesis by (rule none)
next
  case True
  from split_list_first [OF True] obtain before rest where
    s: "s = before @ CHR ''['' # rest" and b: "CHR ''['' \<notin> set before" by auto
  show ?thesis
  proof (cases "CHR '']'' \<in> set rest")
    case False
    with s b show ?thesis by (rule unterminated)
  next
    case True
    from split_list_first [OF True] obtain f after where
      "rest = f @ CHR '']'' # after" "CHR '']'' \<notin> set f" by auto
    with s b show ?thesis by (auto intro: field)
  qed
qed

lemma render_none:
  assumes "CHR ''['' \<notin> set s"
  shows "render_by_position sub s = s"
proof -
  from assms have "dropWhile (\<lambda>c. c \<noteq> CHR ''['') s = []" by auto
  then show ?thesis
    by (subst render_by_position.simps) (simp only: list.case)
qed

lemma render_unterminated:
  assumes "CHR ''['' \<notin> set before" and "CHR '']'' \<notin> set rest"
  shows "render_by_position sub (before @ CHR ''['' # rest) = before @ CHR ''['' # rest"
proof -
  have "dropWhile (\<lambda>c. c \<noteq> CHR ''['') (before @ CHR ''['' # rest) = CHR ''['' # rest"
    using assms(1) by (simp add: dropWhile_neq_append)
  then show ?thesis
    using assms(2) by (subst render_by_position.simps) simp
qed

lemma render_field:
  assumes "CHR ''['' \<notin> set before" and "CHR '']'' \<notin> set f"
  shows "render_by_position sub (before @ CHR ''['' # f @ CHR '']'' # after)
     = before @ (case sub f of Some replacement \<Rightarrow> replacement | None \<Rightarrow> bracketed f)
         @ render_by_position sub after"
proof -
  have "dropWhile (\<lambda>c. c \<noteq> CHR ''['') (before @ CHR ''['' # f @ CHR '']'' # after)
          = CHR ''['' # (f @ CHR '']'' # after)"
    using assms(1) by (simp add: dropWhile_neq_append)
  moreover have "takeWhile (\<lambda>c. c \<noteq> CHR ''['') (before @ CHR ''['' # f @ CHR '']'' # after) = before"
    using assms(1) by (rule takeWhile_neq_append)
  moreover have "takeWhile (\<lambda>c. c \<noteq> CHR '']'') (f @ CHR '']'' # after) = f"
    using assms(2) by (rule takeWhile_neq_append)
  moreover have "tl (dropWhile (\<lambda>c. c \<noteq> CHR '']'') (f @ CHR '']'' # after)) = after"
    using assms(2) by (simp add: dropWhile_neq_append)
  ultimately show ?thesis
    by (subst render_by_position.simps) (simp cong: option.case_cong)
qed

lemma replace_scan_skip:
  "c0 \<notin> set u \<Longrightarrow> replace_scan (u @ v) (c0 # old) new = u @ replace_scan v (c0 # old) new"
  by (induction u) auto

lemma replace_scan_no_last:
  "c1 \<notin> set s \<Longrightarrow> replace_scan s (old @ [c1]) new = s"
proof (induction s)
  case Nil
  show ?case by simp
next
  case (Cons c cs)
  have "\<not> prefix (old @ [c1]) (c # cs)"
  proof
    assume "prefix (old @ [c1]) (c # cs)"
    then have "set (old @ [c1]) \<subseteq> set (c # cs)" by (rule set_mono_prefix)
    with Cons.prems show False by auto
  qed
  with Cons show ?case by simp
qed

lemma prefix_closed_field:
  assumes "c \<notin> set g" and "c \<notin> set f"
  shows "prefix (g @ [c]) (f @ c # y) \<longleftrightarrow> g = f"
  using assms
proof (induction g arbitrary: f)
  case Nil
  then show ?case by (cases f) auto
next
  case (Cons a g)
  then show ?case by (cases f) auto
qed

lemma extractFields_spec_Cons:
  assumes "CHR ''['' \<notin> set before" and "CHR '']'' \<notin> set f"
  shows "extractFields_spec (before @ CHR ''['' # f @ CHR '']'' # after) = f # extractFields_spec after"
  using extractFields_spec_field [OF assms, of after] by simp

lemma extractFields_spec_stop:
  assumes "CHR ''['' \<notin> set before" and "CHR '']'' \<notin> set rest"
  shows "extractFields_spec (before @ CHR ''['' # rest) = []"
  using extractFields_spec_unterminated [OF assms] by simp

lemma extractFields_spec_skip:
  assumes "CHR ''['' \<notin> set u"
  shows "extractFields_spec (u @ v) = extractFields_spec v"
proof -
  have "dropWhile (\<lambda>c. c \<noteq> CHR ''['') (u @ v) = dropWhile (\<lambda>c. c \<noteq> CHR ''['') v"
    using assms by (rule dropWhile_neq_append)
  then show ?thesis
    by (subst extractFields_spec.simps, subst (2) extractFields_spec.simps) simp
qed

lemma extractFields_spec_closed:
  "f \<in> set (extractFields_spec s) \<Longrightarrow> CHR '']'' \<notin> set f"
proof (induction "length s" arbitrary: s rule: less_induct)
  case less
  show ?case
  proof (cases s rule: scan_shape)
    case none
    with less.prems show ?thesis by (simp add: extractFields_spec_no_open)
  next
    case (unterminated before rest)
    with less.prems show ?thesis by (simp add: extractFields_spec_stop)
  next
    case (field before f' after)
    have "extractFields_spec s = f' # extractFields_spec after"
      unfolding field(1) using field(2,3) by (rule extractFields_spec_Cons)
    with less.prems have "f = f' \<or> f \<in> set (extractFields_spec after)" by simp
    moreover have "length after < length s" unfolding field(1) by simp
    ultimately show ?thesis using less.hyps field(3) by blast
  qed
qed

lemma replace_renders_field:
  assumes g: "CHR ''['' \<notin> set g" "CHR '']'' \<notin> set g"
    and new: "CHR ''['' \<notin> set (val g)"
    and P: "\<forall>f \<in> P. CHR ''['' \<notin> set (val f)"
    and wf: "\<forall>f \<in> set (extractFields_spec s). CHR ''['' \<notin> set f"
  shows "replace_scan (render_by_position (\<lambda>f. if f \<in> P then Some (val f) else None) s)
           (bracketed g) (val g)
     = render_by_position (\<lambda>f. if f \<in> insert g P then Some (val f) else None) s"
  using wf
proof (induction "length s" arbitrary: s rule: less_induct)
  case less
  let ?old = "bracketed g" and ?new = "val g"
  let ?sub = "\<lambda>f. if f \<in> P then Some (val f) else None"
  let ?sub' = "\<lambda>f. if f \<in> insert g P then Some (val f) else None"
  have old: "?old = CHR ''['' # (g @ '']'')" "?old = (CHR ''['' # g) @ [CHR '']'']"
    by (simp_all add: bracketed_def)
  show ?case
  proof (cases s rule: scan_shape)
    case none
    then have "replace_scan s ?old ?new = s"
      using replace_scan_skip [of "CHR ''[''" s "[]" "g @ '']''" ?new] by (simp add: old(1))
    with none show ?thesis by (simp add: render_none)
  next
    case (unterminated before rest)
    have "replace_scan (CHR ''['' # rest) ?old ?new = CHR ''['' # rest"
      unfolding old(2) using unterminated(3) by (intro replace_scan_no_last) simp
    then have "replace_scan s ?old ?new = s"
      unfolding unterminated(1) using unterminated(2)
      by (simp add: old(1) replace_scan_skip)
    with unterminated show ?thesis by (simp add: render_unterminated)
  next
    case (field before f after)
    let ?M = "render_by_position ?sub after"
    have ex: "extractFields_spec s = f # extractFields_spec after"
      unfolding field(1) using field(2,3) by (rule extractFields_spec_Cons)
    with less.prems have f: "CHR ''['' \<notin> set f"
      and wf': "\<forall>f \<in> set (extractFields_spec after). CHR ''['' \<notin> set f"
      by simp_all
    have "length after < length s" unfolding field(1) by simp
    from less.hyps [OF this wf']
    have IH: "replace_scan ?M ?old ?new = render_by_position ?sub' after" .
    have pos: "render_by_position sub s
        = before @ (case sub f of Some replacement \<Rightarrow> replacement | None \<Rightarrow> bracketed f)
            @ render_by_position sub after"
      for sub
      unfolding field(1) using field(2,3) by (rule render_field)
    show ?thesis
    proof (cases "f \<in> P")
      case True
      have "CHR ''['' \<notin> set (before @ val f)"
        using field(2) P True by simp
      from replace_scan_skip [OF this, of ?M "g @ '']''" ?new]
      have "replace_scan (before @ val f @ ?M) ?old ?new = before @ val f @ replace_scan ?M ?old ?new"
        by (simp add: old(1))
      with True IH show ?thesis by (simp add: pos)
    next
      case False
      have skip: "replace_scan (before @ bracketed f @ ?M) ?old ?new
          = before @ replace_scan (bracketed f @ ?M) ?old ?new"
        using replace_scan_skip [OF field(2), of "bracketed f @ ?M" "g @ '']''" ?new]
        by (simp add: old(1))
      have pre: "prefix ?old (bracketed f @ ?M) \<longleftrightarrow> g = f"
        using prefix_closed_field [OF g(2) field(3), of ?M]
        by (simp add: bracketed_def)
      show ?thesis
      proof (cases "g = f")
        case True
        have "replace_scan (bracketed f @ ?M) ?old ?new = ?new @ replace_scan ?M ?old ?new"
          using pre True by (simp add: bracketed_def)
        with skip IH True False show ?thesis by (simp add: pos)
      next
        case neq: False
        have "CHR ''['' \<notin> set (f @ '']'')" using f by simp
        from replace_scan_skip [OF this, of ?M "g @ '']''" ?new]
        have "replace_scan (f @ '']'' @ ?M) ?old ?new = f @ '']'' @ replace_scan ?M ?old ?new"
          by (simp add: old(1))
        moreover have "replace_scan (bracketed f @ ?M) ?old ?new
            = CHR ''['' # replace_scan (f @ '']'' @ ?M) ?old ?new"
          using pre neq by (simp add: bracketed_def)
        ultimately have "replace_scan (bracketed f @ ?M) ?old ?new
            = bracketed f @ replace_scan ?M ?old ?new"
          by (simp add: bracketed_def)
        with skip IH neq False show ?thesis by (simp add: pos)
      qed
    qed
  qed
qed

lemma fold_replace_renders:
  assumes "\<forall>f \<in> set fs. CHR ''['' \<notin> set f \<and> CHR '']'' \<notin> set f \<and> CHR ''['' \<notin> set (val f)"
    and "\<forall>f \<in> P. CHR ''['' \<notin> set (val f)"
    and "\<forall>f \<in> set (extractFields_spec s). CHR ''['' \<notin> set f"
  shows "fold (\<lambda>field t. str_replace t (''['' @ field @ '']'') (val field)) fs
           (render_by_position (\<lambda>f. if f \<in> P then Some (val f) else None) s)
     = render_by_position (\<lambda>f. if f \<in> P \<union> set fs then Some (val f) else None) s"
  using assms(1,2)
proof (induction fs arbitrary: P)
  case Nil
  show ?case by simp
next
  case (Cons g fs)
  have "str_replace (render_by_position (\<lambda>f. if f \<in> P then Some (val f) else None) s)
          (''['' @ g @ '']'') (val g)
      = render_by_position (\<lambda>f. if f \<in> insert g P then Some (val f) else None) s"
    using replace_renders_field [OF _ _ _ Cons.prems(2) assms(3), of g] Cons.prems(1)
    by (simp add: str_replace_def bracketed_def)
  moreover have "\<forall>f \<in> insert g P. CHR ''['' \<notin> set (val f)"
    using Cons.prems by simp
  moreover have "\<forall>f \<in> set fs. CHR ''['' \<notin> set f \<and> CHR '']'' \<notin> set f \<and> CHR ''['' \<notin> set (val f)"
    using Cons.prems(1) by simp
  ultimately show ?case
    using Cons.IH [of "insert g P"] by simp
qed

lemma render_cong:
  assumes "\<forall>f \<in> set (extractFields_spec s). sub f = sub' f"
  shows "render_by_position sub s = render_by_position sub' s"
  using assms
proof (induction "length s" arbitrary: s rule: less_induct)
  case less
  show ?case
  proof (cases s rule: scan_shape)
    case none
    then show ?thesis by (simp add: render_none)
  next
    case (unterminated before rest)
    then show ?thesis by (simp add: render_unterminated)
  next
    case (field before f after)
    have ex: "extractFields_spec s = f # extractFields_spec after"
      unfolding field(1) using field(2,3) by (rule extractFields_spec_Cons)
    with less.prems have f: "sub f = sub' f"
      and rest: "\<forall>f \<in> set (extractFields_spec after). sub f = sub' f"
      by simp_all
    have "length after < length s" unfolding field(1) by simp
    from less.hyps [OF this rest] f show ?thesis
      unfolding field(1) by (simp add: render_field [OF field(2,3)])
  qed
qed

lemma render_nothing: "render_by_position (\<lambda>f. None) s = s"
proof (induction "length s" arbitrary: s rule: less_induct)
  case less
  show ?case
  proof (cases s rule: scan_shape)
    case none
    then show ?thesis by (rule render_none)
  next
    case (unterminated before rest)
    then show ?thesis by (simp add: render_unterminated)
  next
    case (field before f after)
    have "length after < length s" unfolding field(1) by simp
    from less.hyps [OF this] field show ?thesis
      by (simp add: render_field bracketed_def)
  qed
qed

lemma render_leaves_no_field:
  assumes "\<forall>f \<in> set (extractFields_spec s). \<exists>v. sub f = Some v \<and> CHR ''['' \<notin> set v"
  shows "extractFields_spec (render_by_position sub s) = []"
  using assms
proof (induction "length s" arbitrary: s rule: less_induct)
  case less
  show ?case
  proof (cases s rule: scan_shape)
    case none
    then show ?thesis by (simp add: render_none extractFields_spec_no_open)
  next
    case (unterminated before rest)
    then show ?thesis by (simp add: render_unterminated extractFields_spec_stop)
  next
    case (field before f after)
    have ex: "extractFields_spec s = f # extractFields_spec after"
      unfolding field(1) using field(2,3) by (rule extractFields_spec_Cons)
    with less.prems obtain v where v: "sub f = Some v" "CHR ''['' \<notin> set v"
      and rest: "\<forall>f \<in> set (extractFields_spec after). \<exists>v. sub f = Some v \<and> CHR ''['' \<notin> set v"
      by auto
    have "length after < length s" unfolding field(1) by simp
    from less.hyps [OF this rest]
    have IH: "extractFields_spec (render_by_position sub after) = []" .
    have pos: "render_by_position sub s = (before @ v) @ render_by_position sub after"
      unfolding field(1) using render_field [OF field(2,3), of sub after] v(1) by simp
    have "CHR ''['' \<notin> set (before @ v)"
      using field(2) v(2) by simp
    from extractFields_spec_skip [OF this, of "render_by_position sub after"]
    show ?thesis
      unfolding pos using IH by simp
  qed
qed

lemma fold_replace_by_position:
  assumes wf: "\<forall>f \<in> set (extractFields_spec s). CHR ''['' \<notin> set f \<and> CHR ''['' \<notin> set (val f)"
  shows "fold (\<lambda>field t. str_replace t (''['' @ field @ '']'') (val field)) (extractFields_spec s) s
     = render_by_position (\<lambda>f. Some (val f)) s"
proof -
  let ?fs = "extractFields_spec s"
  have closed: "\<forall>f \<in> set ?fs. CHR ''['' \<notin> set f \<and> CHR '']'' \<notin> set f \<and> CHR ''['' \<notin> set (val f)"
    using wf extractFields_spec_closed by blast
  have "fold (\<lambda>field t. str_replace t (''['' @ field @ '']'') (val field)) ?fs s
      = fold (\<lambda>field t. str_replace t (''['' @ field @ '']'') (val field)) ?fs
          (render_by_position (\<lambda>f. if f \<in> {} then Some (val f) else None) s)"
    by (simp add: render_nothing)
  also have "\<dots> = render_by_position (\<lambda>f. if f \<in> {} \<union> set ?fs then Some (val f) else None) s"
    using wf by (intro fold_replace_renders closed) simp_all
  also have "\<dots> = render_by_position (\<lambda>f. Some (val f)) s"
    by (rule render_cong) simp
  finally show ?thesis .
qed

text \<open>
  Claim C9. For every template body, \<^verbatim>\<open>update_preview\<close> returns the body in which,
  for each extracted field name in order, every occurrence of the name in square
  brackets has been replaced by the name in angle brackets; no value is filled in.
  Replacing every occurrence means: a text without an occurrence of \<open>old\<close> is
  unchanged, and at the first occurrence the text before it is kept, \<open>new\<close> is
  written, and the replacement goes on behind the occurrence. When no field name
  contains a \<^verbatim>\<open>[\<close>, the result is the body with every bracket pair turned into
  angle brackets where it stands. \<^verbatim>\<open>Hi [name]!\<close> becomes \<^verbatim>\<open>Hi <name>!\<close>, and in
  \<^verbatim>\<open>[a[b]x] [b>x]\<close> both occurrences of \<^verbatim>\<open>[b>x]\<close> are replaced.
\<close>

theorem update_preview_replaces:
  "update_preview s
     = Some (fold (\<lambda>field text. str_replace text (''['' @ field @ '']'') (''<'' @ field @ ''>''))
              (extractFields_spec s) s)
   \<and> (old \<noteq> [] \<and> \<not> sublist old t \<longrightarrow> str_replace t old new = t)
   \<and> (old \<noteq> [] \<and> \<not> sublist old (u @ butlast old) \<longrightarrow>
        str_replace (u @ old @ v) old new = u @ new @ str_replace v old new)
   \<and> ((\<forall>field \<in> set (extractFields_spec s). CHR ''['' \<notin> set field) \<longrightarrow>
        update_preview s = Some (render_by_position (\<lambda>field. Some (''<'' @ field @ ''>'')) s))
   \<and> update_preview ''Hi [name]!'' = Some ''Hi <name>!''
   \<and> update_preview ''[a[b]x] [b>x]'' = Some ''<a<b>x> <b>x>''"
proof -
  have fold: "update_preview s
     = Some (fold (\<lambda>field text. str_replace text (''['' @ field @ '']'') (''<'' @ field @ ''>''))
              (extractFields_spec s) s)"
    using update_preview_eq [of s] preview_loop_fold [of "extractFields_spec s" s] by simp
  have "update_preview s = Some (render_by_position (\<lambda>field. Some (''<'' @ field @ ''>'')) s)"
    if "\<forall>field \<in> set (extractFields_spec s). CHR ''['' \<notin> set field"
    using fold_replace_by_position [of s "\<lambda>field. ''<'' @ field @ ''>''"] that
    unfolding fold by simp
  moreover have "update_preview ''Hi [name]!'' = Some ''Hi <name>!''" by code_simp
  moreover have "update_preview ''[a[b]x] [b>x]'' = Some ''<a<b>x> <b>x>''" by code_simp
  ultimately show ?thesis
    using fold str_replace_absent [of old t new] str_replace_first [of old u v new] by blast
qed

theorem update_preview_replaces_witness:
  "''[a]'' \<noteq> [] \<and> \<not> sublist ''[a]'' ''x[b]''
   \<and> str_replace ''x[b]'' ''[a]'' ''<a>'' = ''x[b]''
   \<and> \<not> sublist ''[a]'' (''x[b]'' @ butlast ''[a]'')
   \<and> str_replace (''x[b]'' @ ''[a]'' @ ''y[a]'') ''[a]'' ''<a>''
       = ''x[b]'' @ ''<a>'' @ str_replace ''y[a]'' ''[a]'' ''<a>''
   \<and> extractFields_spec ''[a] and [b], [a]'' = [''a'', ''b'', ''a'']
   \<and> CHR ''['' \<notin> set ''a'' \<and> CHR ''['' \<notin> set ''b''
   \<and> update_preview ''[a] and [b], [a]''
       = Some (render_by_position (\<lambda>field. Some (''<'' @ field @ ''>'')) ''[a] and [b], [a]'')
   \<and> render_by_position (\<lambda>field. Some (''<'' @ field @ ''>'')) ''[a] and [b], [a]''
       = ''<a> and <b>, <a>''"
proof -
  let ?s = "''[a] and [b], [a]''"
  have a: "''[a]'' \<noteq> [] \<and> \<not> sublist ''[a]'' ''x[b]''"
    and b: "''[a]'' \<noteq> [] \<and> \<not> sublist ''[a]'' (''x[b]'' @ butlast ''[a]'')"
    by (simp_all add: sublist_Cons_right)
  have f: "extractFields_spec ?s = [''a'', ''b'', ''a'']"
    using get_template_fields_eq_spec [of ?s]
    by (simp add: get_template_fields_def get_template_fields_loop.simps [of "c # cs" for c cs]
        str_find_def slice_def)
  have c: "\<forall>field \<in> set (extractFields_spec ?s). CHR ''['' \<notin> set field"
    by (simp add: f)
  have r: "render_by_position (\<lambda>field. Some (''<'' @ field @ ''>'')) ?s = ''<a> and <b>, <a>''"
    by code_simp
  note t = update_preview_replaces [of ?s "''[a]''" "''x[b]''" "''<a>''" "''x[b]''" "''y[a]''"]
  note t1 = t [THEN conjunct2, THEN conjunct1, THEN mp, OF a]
  note t2 = t [THEN conjunct2, THEN conjunct2, THEN conjunct1, THEN mp, OF b]
  note t3 = t [THEN conjunct2, THEN conjunct2, THEN conjunct2, THEN conjunct1, THEN mp, OF c]
  show ?thesis
    using a b f r t1 t2 t3 by simp
qed

text \<open>
  Claim C2. For every template body and every mapping that gives a value to each
  extracted field, \<^verbatim>\<open>copy_to_clipboard\<close> with the dialog accepted puts on the
  clipboard the body in which, for each extracted field name in the extractor's
  order, duplicates included, every occurrence of the bracketed name has been
  replaced by that field's value. Replacing every occurrence means: a text without
  an occurrence of \<open>old\<close> is unchanged, and at the first occurrence the text before
  it is kept, \<open>new\<close> is written, and the replacement goes on behind the occurrence.
  When no field name and no value contains a \<^verbatim>\<open>[\<close>, the result is the body with
  every bracket pair replaced by its field's value where it stands. \<^verbatim>\<open>Hi [name]!\<close>
  with \<^verbatim>\<open>name\<close> set to \<^verbatim>\<open>Ada\<close> gives \<^verbatim>\<open>Hi Ada!\<close>; in \<^verbatim>\<open>[a][b] [a\<close> with \<^verbatim>\<open>a\<close> set
  to \<^verbatim>\<open>[b]\<close> and \<^verbatim>\<open>b\<close> to \<^verbatim>\<open>X\<close>, both occurrences of \<^verbatim>\<open>[b]\<close> are replaced.
\<close>

theorem copy_to_clipboard_fills:
  "((\<forall>field \<in> set (extractFields_spec body). inputs field = Some (typed field)) \<longrightarrow>
      copy_to_clipboard body (Some inputs) clipboard
        = Some (Informed (if extractFields_spec body \<noteq> []
                          then ''Filled template copied to clipboard!''
                          else ''Template copied to clipboard!''),
                Some (fold (\<lambda>field text. str_replace text (''['' @ field @ '']'') (typed field))
                        (extractFields_spec body) body)))
   \<and> (old \<noteq> [] \<and> \<not> sublist old t \<longrightarrow> str_replace t old new = t)
   \<and> (old \<noteq> [] \<and> \<not> sublist old (u @ butlast old) \<longrightarrow>
        str_replace (u @ old @ v) old new = u @ new @ str_replace v old new)
   \<and> ((\<forall>field \<in> set (extractFields_spec body).
          CHR ''['' \<notin> set field \<and> inputs field = Some (typed field)
          \<and> CHR ''['' \<notin> set (typed field)) \<longrightarrow>
        copy_to_clipboard body (Some inputs) clipboard
          = Some (Informed (if extractFields_spec body \<noteq> []
                            then ''Filled template copied to clipboard!''
                            else ''Template copied to clipboard!''),
                  Some (render_by_position inputs body)))
   \<and> copy_to_clipboard ''Hi [name]!'' (Some [''name'' \<mapsto> ''Ada'']) None
       = Some (Informed ''Filled template copied to clipboard!'', Some ''Hi Ada!'')
   \<and> copy_to_clipboard ''[a][b] [a'' (Some [''a'' \<mapsto> ''[b]'', ''b'' \<mapsto> ''X'']) None
       = Some (Informed ''Filled template copied to clipboard!'', Some ''XX [a'')"
proof -
  have ex1: "copy_to_clipboard ''Hi [name]!'' (Some [''name'' \<mapsto> ''Ada'']) None
       = Some (Informed ''Filled template copied to clipboard!'', Some ''Hi Ada!'')"
    by code_simp
  have ex2: "copy_to_clipboard ''[a][b] [a'' (Some [''a'' \<mapsto> ''[b]'', ''b'' \<mapsto> ''X'']) None
       = Some (Informed ''Filled template copied to clipboard!'', Some ''XX [a'')"
    by code_simp
  have fold: "copy_to_clipboard body (Some inputs) clipboard
        = Some (Informed (if extractFields_spec body \<noteq> []
                          then ''Filled template copied to clipboard!''
                          else ''Template copied to clipboard!''),
                Some (fold (\<lambda>field text. str_replace text (''['' @ field @ '']'') (typed field))
                        (extractFields_spec body) body))"
    if "\<forall>field \<in> set (extractFields_spec body). inputs field = Some (typed field)"
    using fill_loop_fold [OF that, of body]
    by (simp add: copy_to_clipboard_def get_template_fields_eq_spec)
  have pos: "copy_to_clipboard body (Some inputs) clipboard
          = Some (Informed (if extractFields_spec body \<noteq> []
                            then ''Filled template copied to clipboard!''
                            else ''Template copied to clipboard!''),
                  Some (render_by_position inputs body))"
    if h: "\<forall>field \<in> set (extractFields_spec body).
          CHR ''['' \<notin> set field \<and> inputs field = Some (typed field)
          \<and> CHR ''['' \<notin> set (typed field)"
  proof -
    have "fold (\<lambda>field text. str_replace text (''['' @ field @ '']'') (typed field))
            (extractFields_spec body) body
        = render_by_position (\<lambda>f. Some (typed f)) body"
      using h by (intro fold_replace_by_position) simp
    also have "\<dots> = render_by_position inputs body"
      using h by (intro render_cong) simp
    finally show ?thesis using fold h by simp
  qed
  show ?thesis
    using ex1 ex2 fold pos str_replace_absent [of old t new] str_replace_first [of old u v new]
    by blast
qed

theorem copy_to_clipboard_fills_witness:
  "extractFields_spec ''[a] and [b], [a]'' = [''a'', ''b'', ''a'']
   \<and> [''a'' \<mapsto> ''1'', ''b'' \<mapsto> ''2''] ''a'' = Some ''1''
   \<and> [''a'' \<mapsto> ''1'', ''b'' \<mapsto> ''2''] ''b'' = Some ''2''
   \<and> CHR ''['' \<notin> set ''a'' \<and> CHR ''['' \<notin> set ''b''
   \<and> CHR ''['' \<notin> set ''1'' \<and> CHR ''['' \<notin> set ''2''
   \<and> copy_to_clipboard ''[a] and [b], [a]'' (Some [''a'' \<mapsto> ''1'', ''b'' \<mapsto> ''2'']) None
       = Some (Informed ''Filled template copied to clipboard!'', Some ''1 and 2, 1'')
   \<and> render_by_position [''a'' \<mapsto> ''1'', ''b'' \<mapsto> ''2''] ''[a] and [b], [a]'' = ''1 and 2, 1''
   \<and> ''[a]'' \<noteq> [] \<and> \<not> sublist ''[a]'' ''x[b]''
   \<and> str_replace ''x[b]'' ''[a]'' ''1'' = ''x[b]''
   \<and> \<not> sublist ''[a]'' (''x[b]'' @ butlast ''[a]'')
   \<and> str_replace (''x[b]'' @ ''[a]'' @ ''y[a]'') ''[a]'' ''1''
       = ''x[b]'' @ ''1'' @ str_replace ''y[a]'' ''[a]'' ''1''"
proof -
  let ?s = "''[a] and [b], [a]''"
  let ?in = "[''a'' \<mapsto> ''1'', ''b'' \<mapsto> ''2'']"
  let ?typed = "\<lambda>field. if field = ''a'' then ''1'' else ''2''"
  have f: "extractFields_spec ?s = [''a'', ''b'', ''a'']"
    using get_template_fields_eq_spec [of ?s]
    by (simp add: get_template_fields_def get_template_fields_loop.simps [of "c # cs" for c cs]
        str_find_def slice_def)
  have a: "\<forall>field \<in> set (extractFields_spec ?s). ?in field = Some (?typed field)"
    by (simp add: f)
  have b: "\<forall>field \<in> set (extractFields_spec ?s).
      CHR ''['' \<notin> set field \<and> ?in field = Some (?typed field) \<and> CHR ''['' \<notin> set (?typed field)"
    by (simp add: f)
  have c: "''[a]'' \<noteq> [] \<and> \<not> sublist ''[a]'' ''x[b]''"
    and d: "''[a]'' \<noteq> [] \<and> \<not> sublist ''[a]'' (''x[b]'' @ butlast ''[a]'')"
    by (simp_all add: sublist_Cons_right)
  note t = copy_to_clipboard_fills
      [of ?s ?in ?typed None "''[a]''" "''x[b]''" "''1''" "''x[b]''" "''y[a]''"]
  note t1 = t [THEN conjunct1, THEN mp, OF a]
  note t2 = t [THEN conjunct2, THEN conjunct1, THEN mp, OF c]
  note t3 = t [THEN conjunct2, THEN conjunct2, THEN conjunct1, THEN mp, OF d]
  note t4 = t [THEN conjunct2, THEN conjunct2, THEN conjunct2, THEN conjunct1, THEN mp, OF b]
  have copy: "copy_to_clipboard ?s (Some ?in) None
       = Some (Informed ''Filled template copied to clipboard!'', Some ''1 and 2, 1'')"
    using t1 by (simp add: f str_replace_def)
  have "render_by_position ?in ?s = ''1 and 2, 1''"
    using t4 copy by simp
  with copy f c d t2 t3 show ?thesis by simp
qed

text \<open>
  What replacing every occurrence means for \<^const>\<open>str_replace\<close>, on its own: a text
  without an occurrence of \<open>old\<close> is unchanged, and at the first occurrence the text
  before it is kept, \<open>new\<close> is written, and the replacement goes on behind the
  occurrence.
\<close>

theorem str_replace_occurrences:
  "(old \<noteq> [] \<and> \<not> sublist old s \<longrightarrow> str_replace s old new = s)
   \<and> (old \<noteq> [] \<and> \<not> sublist old (u @ butlast old) \<longrightarrow>
        str_replace (u @ old @ v) old new = u @ new @ str_replace v old new)"
  by (simp add: str_replace_absent str_replace_first)

theorem str_replace_occurrences_witness:
  "''[a]'' \<noteq> [] \<and> \<not> sublist ''[a]'' ''x[b]''
   \<and> str_replace ''x[b]'' ''[a]'' ''1'' = ''x[b]''
   \<and> \<not> sublist ''[a]'' (''x[b]'' @ butlast ''[a]'')
   \<and> str_replace (''x[b]'' @ ''[a]'' @ ''y[a]'') ''[a]'' ''1''
       = ''x[b]'' @ ''1'' @ str_replace ''y[a]'' ''[a]'' ''1''"
proof -
  have a: "''[a]'' \<noteq> [] \<and> \<not> sublist ''[a]'' ''x[b]''"
    and b: "''[a]'' \<noteq> [] \<and> \<not> sublist ''[a]'' (''x[b]'' @ butlast ''[a]'')"
    by (simp_all add: sublist_Cons_right)
  note t1 = str_replace_occurrences [of "''[a]''" "''x[b]''" "''1''" "''x[b]''" "''y[a]''",
      THEN conjunct1, THEN mp, OF a]
  note t2 = str_replace_occurrences [of "''[a]''" "''x[b]''" "''1''" "''x[b]''" "''y[a]''",
      THEN conjunct2, THEN mp, OF b]
  show ?thesis
    by (intro conjI a [THEN conjunct1] a [THEN conjunct2] b [THEN conjunct2] t1 t2)
qed

text \<open>
  Claim C6 as stated fails: the first pass can leave brackets that match. The
  extractor pairs the first \<^verbatim>\<open>[\<close> of \<^verbatim>\<open>[a[b]c]\<close> with the first \<^verbatim>\<open>]\<close>, so the field is
  \<^verbatim>\<open>a[b\<close> and the preview \<^verbatim>\<open><a[b>c]\<close> still holds the pair \<^verbatim>\<open>[b>c]\<close>, which a second
  pass rewrites.
\<close>

theorem update_preview_twice:
  "update_preview ''[a[b]c]'' = Some ''<a[b>c]''
   \<and> update_preview ''<a[b>c]'' = Some ''<a<b>c>''
   \<and> ''<a<b>c>'' \<noteq> ''<a[b>c]''"
  by code_simp

text \<open>
  Claim C6, amended. For every input in which no extracted field name contains a
  \<^verbatim>\<open>[\<close>, the first pass leaves no bracket pair for the extractor to match, so a
  second pass changes nothing: the preview of the preview is the preview.
\<close>

theorem update_preview_idempotent:
  assumes "\<forall>field \<in> set (extractFields_spec s). CHR ''['' \<notin> set field"
  shows "\<exists>p. update_preview s = Some p \<and> get_template_fields p = Some []
           \<and> update_preview p = Some p"
proof -
  let ?p = "render_by_position (\<lambda>f. Some (angled f)) s"
  have "preview_loop (extractFields_spec s) s
      = fold (\<lambda>field t. str_replace t (''['' @ field @ '']'') (angled field)) (extractFields_spec s) s"
    by (simp add: preview_loop_fold angled_def)
  also have "\<dots> = ?p"
    using assms by (intro fold_replace_by_position) (simp add: angled_def)
  finally have p: "update_preview s = Some ?p" by (simp add: update_preview_eq)
  have none: "extractFields_spec ?p = []"
    using assms by (intro render_leaves_no_field) (simp add: angled_def)
  then have "update_preview ?p = Some ?p" by (simp add: update_preview_eq)
  with p none show ?thesis by (simp add: get_template_fields_eq_spec)
qed

theorem update_preview_idempotent_witness:
  "extractFields_spec ''Hi [name], [] and [name]! ]x[ [y'' = [''name'', [], ''name'']
   \<and> CHR ''['' \<notin> set ''name'' \<and> CHR ''['' \<notin> set []
   \<and> update_preview ''Hi [name], [] and [name]! ]x[ [y''
       = Some ''Hi <name>, <> and <name>! ]x[ [y''
   \<and> update_preview ''Hi <name>, <> and <name>! ]x[ [y''
       = Some ''Hi <name>, <> and <name>! ]x[ [y''"
proof -
  let ?s = "''Hi [name], [] and [name]! ]x[ [y''"
  have f: "extractFields_spec ?s = [''name'', [], ''name'']"
    using get_template_fields_eq_spec [of ?s]
    by (simp add: get_template_fields_def get_template_fields_loop.simps [of "c # cs" for c cs]
        str_find_def slice_def)
  have a: "\<forall>field \<in> set (extractFields_spec ?s). CHR ''['' \<notin> set field"
    by (simp add: f)
  have b: "update_preview ?s = Some ''Hi <name>, <> and <name>! ]x[ [y''"
    by code_simp
  from update_preview_idempotent [OF a] obtain p where
    "update_preview ?s = Some p \<and> get_template_fields p = Some [] \<and> update_preview p = Some p" ..
  with b have "update_preview ''Hi <name>, <> and <name>! ]x[ [y''
       = Some ''Hi <name>, <> and <name>! ]x[ [y''"
    by simp
  with f b show ?thesis by simp
qed

end
